theory Spec2Isabelle
  imports Complex_Main "HOL-Library.Word" "HOL-Library.Log_Nat"
begin

unbundle bit_operations_syntax

section \<open>JavaScript values used by the library\<close>

text \<open>
  Bytes of a \<^verbatim>\<open>Uint8Array\<close> are 8-bit words. A JavaScript \<^verbatim>\<open>number\<close> that holds a
  non-negative integer is a \<^typ>\<open>nat\<close>; a number that may be \<^verbatim>\<open>NaN\<close> is a
  \<^typ>\<open>nat option\<close> (or \<^typ>\<open>int option\<close> where \<^verbatim>\<open>-1\<close> occurs), with \<open>None\<close> for
  \<^verbatim>\<open>NaN\<close>. Arguments of type \<^verbatim>\<open>number\<close> that callers pass in (key ids, counters,
  skip) are taken to be integers.
\<close>

type_synonym u8 = "8 word"
type_synonym bytes = "u8 list"
type_synonym jsnum = "nat option"

text \<open>
  Numbers are IEEE-754 doubles: an integer result of \<^verbatim>\<open>+\<close> or \<^verbatim>\<open>*\<close> is rounded to
  the nearest double, ties to even. Below \<open>2 ^ 53\<close> every integer is a double; from
  there on a double has 53 significant bits.
\<close>

definition js_round :: "nat \<Rightarrow> nat" where
  "js_round n =
     (if n < 2 ^ 53 then n
      else let e = floorlog 2 n - 53; q = n div 2 ^ e; r = n mod 2 ^ e
           in if 2 * r < 2 ^ e \<or> (2 * r = 2 ^ e \<and> even q) then q * 2 ^ e
              else (q + 1) * 2 ^ e)"

definition is_double :: "nat \<Rightarrow> bool" where
  "is_double n \<longleftrightarrow> js_round n = n"

definition js_add :: "jsnum \<Rightarrow> jsnum \<Rightarrow> jsnum" where
  "js_add a b = (case (a, b) of (Some x, Some y) \<Rightarrow> Some (js_round (x + y)) | _ \<Rightarrow> None)"

definition js_mul :: "jsnum \<Rightarrow> jsnum \<Rightarrow> jsnum" where
  "js_mul a b = (case (a, b) of (Some x, Some y) \<Rightarrow> Some (js_round (x * y)) | _ \<Rightarrow> None)"

text \<open>\<^verbatim>\<open>view[i]\<close> on a typed array: \<^verbatim>\<open>undefined\<close> out of range, which is \<^verbatim>\<open>NaN\<close> in
  arithmetic and \<open>0\<close> under the bit operators.\<close>

definition view_at :: "bytes \<Rightarrow> nat \<Rightarrow> u8 option" where
  "view_at view i = (if i < length view then Some (view ! i) else None)"

definition to_jsnum :: "u8 option \<Rightarrow> jsnum" where
  "to_jsnum b = map_option unat b"

definition to_int32 :: "u8 option \<Rightarrow> u8" where
  "to_int32 b = (case b of None \<Rightarrow> 0 | Some x \<Rightarrow> x)"

text \<open>\<^verbatim>\<open>subarray(begin, end)\<close> and \<^verbatim>\<open>slice(begin, end)\<close>: a negative index counts from
  the end, and both indices are clamped to the array.\<close>

definition rel_index :: "nat \<Rightarrow> int \<Rightarrow> nat" where
  "rel_index len i = (if i < 0 then nat (max (int len + i) 0) else min (nat i) len)"

definition subarray :: "'a list \<Rightarrow> int \<Rightarrow> int \<Rightarrow> 'a list" where
  "subarray xs b e =
     (let from = rel_index (length xs) b; to = rel_index (length xs) e
      in take (to - from) (drop from xs))"

definition subarray_from :: "'a list \<Rightarrow> int \<Rightarrow> 'a list" where
  "subarray_from xs b = subarray xs b (int (length xs))"

section \<open>Errors\<close>

datatype SFrameErrorType =
    DecryptionFailure
  | EncryptionFailure
  | InvalidKey
  | InvalidHeaderKey
  | InitializationVectorError
  | ReplayAttackError
  | AuthenticationError
  | Unknown

text \<open>A thrown value is either an \<^verbatim>\<open>SFrameError\<close> with its type, or another
  JavaScript error (\<^verbatim>\<open>Error\<close>, \<^verbatim>\<open>RangeError\<close>, a rejected Web Crypto promise).\<close>

datatype error = SFrameError SFrameErrorType | JsError string

text \<open>\<^verbatim>\<open>target.set(source, offset)\<close> throws a \<^verbatim>\<open>RangeError\<close> when the source does
  not fit.\<close>

definition ta_set :: "'a list \<Rightarrow> 'a list \<Rightarrow> nat \<Rightarrow> error + 'a list" where
  "ta_set target source offset =
     (if offset + length source > length target then Inl (JsError ''RangeError'')
      else Inr (take offset target @ source @ drop (offset + length source) target))"

section \<open>SFrameHeader.ts\<close>

record SFrameHeader =
  data :: bytes
  keyId :: jsnum
  counter :: jsnum
  rawCounter :: bytes

definition SFRAME_HEADER_MAXKEYID :: int where
  "SFRAME_HEADER_MAXKEYID = 2 ^ 53 - 1"

definition lengthAdjustment :: nat where
  "lengthAdjustment = 1"

text \<open>The two loops of the parser, \<^verbatim>\<open>n = n * 256 + view[start + i]\<close> for
  \<^verbatim>\<open>i < len\<close>.\<close>

definition read_number :: "bytes \<Rightarrow> nat \<Rightarrow> nat \<Rightarrow> jsnum" where
  "read_number view start len =
     fold (\<lambda>i n. js_add (js_mul n (Some 256)) (to_jsnum (view_at view (start + i))))
       [0..<len] (Some 0)"

definition parseSFrameHeader :: "bytes \<Rightarrow> SFrameHeader" where
  "parseSFrameHeader view =
     (let metadata = to_int32 (view_at view 0);
          ctrLEN = unat (drop_bit 4 metadata AND 0x07);
          isExtendedKey = (metadata AND 0x08 \<noteq> 0);
          keyLenOrKeyId = unat (metadata AND 0x07);
          staticHeaderLength = 1;
          frameCounterLength = ctrLEN + lengthAdjustment;
          extendedKeyLength = keyLenOrKeyId + lengthAdjustment;
          keyId' = (if isExtendedKey then read_number view staticHeaderLength extendedKeyLength
                    else Some keyLenOrKeyId);
          headerLength = (if isExtendedKey then extendedKeyLength + frameCounterLength
                          else frameCounterLength);
          ctrStartIdx = (if isExtendedKey then staticHeaderLength + extendedKeyLength
                         else staticHeaderLength);
          counter' = read_number view ctrStartIdx frameCounterLength;
          rawCounter' = subarray view (int ctrStartIdx) (int (ctrStartIdx + frameCounterLength))
      in \<lparr>data = subarray view 0 (int (headerLength + 1)),
          keyId = keyId',
          counter = counter',
          rawCounter = rawCounter'\<rparr>)"

definition checkSFrameHeaderKeyId :: "int \<Rightarrow> error + unit" where
  "checkSFrameHeaderKeyId keyId' =
     (if keyId' < 0 then Inl (SFrameError InvalidHeaderKey)
      else if keyId' > SFRAME_HEADER_MAXKEYID then Inl (SFrameError InvalidHeaderKey)
      else Inr ())"

text \<open>
  The length computation works on IEEE-754 doubles that are not integers. A positive real
  \<open>x\<close> lies in the binade \<open>2 ^ e \<le> x < 2 ^ (e + 1)\<close> with \<open>e = \<lfloor>log\<^sub>2 x\<rfloor>\<close>, where the doubles
  are the multiples of \<open>ulp e = 2 ^ (e - 52)\<close>; \<open>to_double x\<close> is the nearest of them,
  ties to the even multiple (the exponent range of a double plays no role for the
  values that occur here, which lie between \<open>1 / 8\<close> and \<open>64\<close>, or are \<open>0\<close>).
\<close>

definition ulp :: "int \<Rightarrow> real" where
  "ulp e = 2 powr (of_int e - 52)"

definition to_double :: "real \<Rightarrow> real" where
  "to_double x =
     (let u = ulp \<lfloor>log 2 x\<rfloor>; m = x / u; n = \<lfloor>m\<rfloor>
      in (if m - of_int n < 1 / 2 \<or> (m - of_int n = 1 / 2 \<and> even n) then of_int n
          else of_int n + 1) * u)"

text \<open>
  \<^verbatim>\<open>Math.log\<close> returns a double. ECMAScript leaves its accuracy to the implementation;
  it is taken here as the double nearest to the natural logarithm. The division
  \<^verbatim>\<open>/\<close> of two doubles is the double nearest to their quotient.
\<close>

definition Math_log :: "nat \<Rightarrow> real" where
  "Math_log x = to_double (ln (real x))"

definition js_divide :: "real \<Rightarrow> real \<Rightarrow> real" where
  "js_divide a b = to_double (a / b)"

text \<open>
  \<^verbatim>\<open>i ? parseInt((Math.log(i) / Math.log(256)).toString()) : 0\<close>. For \<open>i \<ge> 1\<close> the
  quotient is a double that is \<open>0\<close> or at least \<open>1 / 8\<close>; its \<^verbatim>\<open>toString\<close> is a
  decimal numeral without exponent, of which \<^verbatim>\<open>parseInt\<close> reads the integer part.
\<close>

definition calculateKLENorLEN :: "nat \<Rightarrow> nat" where
  "calculateKLENorLEN i =
     (if i \<noteq> 0 then nat \<lfloor>js_divide (Math_log i) (Math_log 256)\<rfloor> else 0)"

text \<open>\<^verbatim>\<open>new Uint8Array(new BigUint64Array([BigInt(input)]).buffer).slice(0, length).reverse()\<close>:
  the low \<open>length\<close> bytes of the 64-bit value, most significant first (a typed array has
  the byte order of the host, little-endian as the tests of the repository assume).\<close>

definition u64_bytes :: "64 word \<Rightarrow> bytes" where
  "u64_bytes w = map (\<lambda>j. ucast (drop_bit (8 * j) w)) [0..<8]"

definition toUint8ArrayViaI64 :: "nat \<Rightarrow> nat \<Rightarrow> bytes" where
  "toUint8ArrayViaI64 input len = rev (subarray (u64_bytes (of_nat input)) 0 (int len))"

definition addToHeaderViaI64 :: "bytes \<Rightarrow> nat \<Rightarrow> nat \<Rightarrow> nat \<Rightarrow> bytes" where
  "addToHeaderViaI64 headerData leftOffset input len =
     (let a8 = toUint8ArrayViaI64 input len
      in fold (\<lambda>i h. h[leftOffset + i := to_int32 (view_at a8 i)]) [0..<len] headerData)"

definition metadata_byte :: "nat \<Rightarrow> bool \<Rightarrow> nat \<Rightarrow> u8" where
  "metadata_byte ctrLEN isExtendedKey keyLenOrKeyId =
     (let h0 = (0x00 :: u8);
          h1 = push_bit 3 h0 OR (of_nat ctrLEN AND 0x07);
          h2 = push_bit 1 h1 OR (if isExtendedKey then 0x01 else 0x00)
      in push_bit 3 h2 OR (of_nat keyLenOrKeyId AND 0x07))"

definition generateSFrameHeader :: "int \<Rightarrow> nat \<Rightarrow> error + SFrameHeader" where
  "generateSFrameHeader keyId' counter' =
     (case checkSFrameHeaderKeyId keyId' of
        Inl e \<Rightarrow> Inl e
      | Inr _ \<Rightarrow>
          let isExtendedKey = (keyId' > 7);
              keyLenOrKeyId = (if isExtendedKey then calculateKLENorLEN (nat keyId') else nat keyId');
              ctrLEN = calculateKLENorLEN counter'
          in if ctrLEN > 7
             then Inl (JsError ''The length of the CTR fields in bytes must be between 1-8'')
             else
               let staticHeaderLength = 1;
                   extendedKeyLength = keyLenOrKeyId + lengthAdjustment;
                   frameCounterLength = ctrLEN + lengthAdjustment;
                   headerDataLength =
                     (if isExtendedKey then staticHeaderLength + extendedKeyLength + frameCounterLength
                      else staticHeaderLength + frameCounterLength);
                   headerData0 = (replicate headerDataLength 0)
                                   [0 := metadata_byte ctrLEN isExtendedKey keyLenOrKeyId];
                   headerData1 =
                     (if isExtendedKey
                      then addToHeaderViaI64 headerData0 staticHeaderLength (nat keyId') extendedKeyLength
                      else headerData0);
                   ctrStartIdx = (if isExtendedKey then extendedKeyLength + 1 else 1);
                   headerData' = addToHeaderViaI64 headerData1 ctrStartIdx counter' frameCounterLength
               in Inr \<lparr>data = headerData',
                       keyId = Some (nat keyId'),
                       counter = Some counter',
                       rawCounter = subarray headerData' (int ctrStartIdx)
                                      (int (ctrStartIdx + frameCounterLength))\<rparr>)"


section \<open>IV.ts\<close>

text \<open>\<^verbatim>\<open>DataView.setUint8(index, value)\<close> throws a \<^verbatim>\<open>RangeError\<close> outside the view.\<close>

definition setUint8 :: "bytes \<Rightarrow> int \<Rightarrow> u8 \<Rightarrow> error + bytes" where
  "setUint8 view i v =
     (if 0 \<le> i \<and> i < int (length view) then Inr (view[nat i := v])
      else Inl (JsError ''RangeError''))"

text \<open>A \<^verbatim>\<open>for\<close> loop over indices whose body may throw.\<close>

fun for_loop :: "nat list \<Rightarrow> (nat \<Rightarrow> 's \<Rightarrow> error + 's) \<Rightarrow> 's \<Rightarrow> error + 's" where
  "for_loop [] body s = Inr s"
| "for_loop (i # is) body s =
     (case body i s of Inl e \<Rightarrow> Inl e | Inr s' \<Rightarrow> for_loop is body s')"

definition generateIV :: "bytes \<Rightarrow> bytes \<Rightarrow> error + bytes" where
  "generateIV counter' salt =
     (let saltLength = length salt;
          counterLength = length counter';
          iv = replicate saltLength (0 :: u8)
      in case (case for_loop [0..<counterLength]
                      (\<lambda>i view. setUint8 view (int saltLength - int counterLength + int i)
                                   (to_int32 (view_at counter' i))) iv of
                 Inl e \<Rightarrow> Inl e
               | Inr view \<Rightarrow>
                   for_loop [0..<saltLength]
                     (\<lambda>i view. setUint8 view (int i)
                                  (to_int32 (view_at view i) XOR to_int32 (view_at salt i))) view) of
           Inl e \<Rightarrow> Inl (SFrameError InitializationVectorError)
         | Inr view \<Rightarrow> Inr view)"

section \<open>CipherSuite.ts\<close>

datatype CipherSuiteVariant =
    AES_CM_128_HMAC_SHA256_8
  | AES_CM_128_HMAC_SHA256_4
  | AES_GCM_128_SHA256
  | AES_GCM_256_SHA512

record CipherSuiteConfig =
  algorithm :: string
  keyAlgorithm :: string
  hashAlgorithm :: string
  nH :: nat
  nK :: nat
  nN :: nat
  nT :: nat

text \<open>
  The Web Crypto primitives are parameters of the model. \<^verbatim>\<open>crypto.subtle.encrypt\<close> and
  \<^verbatim>\<open>decrypt\<close> take the algorithm name, the \<^verbatim>\<open>iv\<close>, the \<^verbatim>\<open>length\<close>, the
  \<^verbatim>\<open>additionalData\<close>, the key and the input, and return \<open>None\<close> when the promise is
  rejected; \<^verbatim>\<open>sign\<close> is HMAC under a key; \<open>hkdf\<close> stands for \<^verbatim>\<open>deriveKey\<close> and
  \<^verbatim>\<open>deriveBits\<close> with HKDF (hash, input key material, salt, info, number of bits). A
  \<^verbatim>\<open>CryptoKey\<close> is the byte sequence it was derived as.
\<close>

record WebCrypto =
  subtle_encrypt :: "string \<Rightarrow> bytes \<Rightarrow> nat \<Rightarrow> bytes \<Rightarrow> bytes \<Rightarrow> bytes \<Rightarrow> bytes option"
  subtle_decrypt :: "string \<Rightarrow> bytes \<Rightarrow> nat \<Rightarrow> bytes \<Rightarrow> bytes \<Rightarrow> bytes \<Rightarrow> bytes option"
  subtle_sign :: "bytes \<Rightarrow> bytes \<Rightarrow> bytes"
  hkdf :: "string \<Rightarrow> bytes \<Rightarrow> bytes \<Rightarrow> bytes \<Rightarrow> nat \<Rightarrow> bytes"

record CipherSuite =
  config :: CipherSuiteConfig
  baseKey :: bytes
  encryptionKey :: bytes
  saltKey :: bytes
  authKey :: bytes

definition getCipherSuiteConfig :: "CipherSuiteVariant \<Rightarrow> CipherSuiteConfig option" where
  "getCipherSuiteConfig variant =
     map_of
       [(AES_CM_128_HMAC_SHA256_8,
           \<lparr>algorithm = ''AES-CTR'', keyAlgorithm = ''HKDF'', hashAlgorithm = ''SHA-256'',
            nH = 32, nK = 16, nN = 12, nT = 8\<rparr>),
        (AES_CM_128_HMAC_SHA256_4,
           \<lparr>algorithm = ''AES-CTR'', keyAlgorithm = ''HKDF'', hashAlgorithm = ''SHA-256'',
            nH = 32, nK = 16, nN = 12, nT = 4\<rparr>),
        (AES_GCM_128_SHA256,
           \<lparr>algorithm = ''AES-GCM'', keyAlgorithm = ''HKDF'', hashAlgorithm = ''SHA-256'',
            nH = 32, nK = 16, nN = 12, nT = 8\<rparr>),
        (AES_GCM_256_SHA512,
           \<lparr>algorithm = ''AES-GCM'', keyAlgorithm = ''HKDF'', hashAlgorithm = ''SHA-512'',
            nH = 64, nK = 32, nN = 12, nT = 16\<rparr>)]
       variant"

text \<open>\<^verbatim>\<open>new TextEncoder().encode(s)\<close> for an ASCII string.\<close>

definition encode :: "string \<Rightarrow> bytes" where
  "encode s = map (\<lambda>c. of_nat (of_char c)) s"

definition createCipherSuite :: "WebCrypto \<Rightarrow> CipherSuiteVariant \<Rightarrow> bytes \<Rightarrow> error + CipherSuite" where
  "createCipherSuite cr cipherSuite keyMaterial =
     (case getCipherSuiteConfig cipherSuite of
        None \<Rightarrow> Inl (JsError ''no config found for cipher suite variant'')
      | Some cfg \<Rightarrow>
          let key = keyMaterial;
              encryptionKey' = hkdf cr (hashAlgorithm cfg) key (encode ''SFrame10'') (encode ''key'')
                                 (nK cfg * 8);
              saltKey' = hkdf cr (hashAlgorithm cfg) key (encode ''SFrame10'') (encode ''salt'')
                           (nN cfg * 8);
              authKey' = hkdf cr ''SHA-256'' key (encode ''SFrame10'') (encode ''auth'') (nK cfg * 8)
          in Inr \<lparr>config = cfg, baseKey = key, encryptionKey = encryptionKey',
                  saltKey = saltKey', authKey = authKey'\<rparr>)"

section \<open>SFrameCrypto.ts\<close>

record SFrameCrypto =
  cipherSuite :: CipherSuite

definition SFrameCrypto_encrypt ::
  "WebCrypto \<Rightarrow> SFrameCrypto \<Rightarrow> SFrameHeader \<Rightarrow> bytes \<Rightarrow> nat \<Rightarrow> error + bytes \<times> bytes" where
  "SFrameCrypto_encrypt cr this header payload skip =
     (case generateIV (rawCounter header) (saltKey (cipherSuite this)) of
        Inl e \<Rightarrow> Inl e
      | Inr iv \<Rightarrow>
         (case subtle_encrypt cr (algorithm (config (cipherSuite this))) iv
                 (nK (config (cipherSuite this)) * 8) (data header)
                 (encryptionKey (cipherSuite this)) payload of
            None \<Rightarrow> Inl (JsError ''crypto.subtle.encrypt rejected'')
          | Some encrypted \<Rightarrow>
              let authTagLength = nT (config (cipherSuite this));
                  frameSize = length (data header) + length encrypted + authTagLength + skip;
                  encryptedFrame0 = replicate frameSize (0 :: u8)
              in case (case ta_set encryptedFrame0 (data header) skip of
                         Inl e \<Rightarrow> Inl e
                       | Inr f \<Rightarrow> ta_set f encrypted (skip + length (data header))) of
                   Inl e \<Rightarrow> Inl (SFrameError EncryptionFailure)
                 | Inr encryptedFrame1 \<Rightarrow>
                     let authCode = subtle_sign cr (authKey (cipherSuite this))
                           (subarray encryptedFrame1 (int skip)
                              (int (skip + length (data header) + length encrypted)));
                         authTag = subarray authCode 0 (int authTagLength)
                     in case ta_set encryptedFrame1 authTag
                               (skip + length encrypted + length (data header)) of
                          Inl e \<Rightarrow> Inl (SFrameError AuthenticationError)
                        | Inr encryptedFrame \<Rightarrow> Inr (encryptedFrame, authTag)))"

text \<open>The tag comparison \<^verbatim>\<open>authenticated = authenticated && authTag[i] === authCode[i]\<close>
  for \<^verbatim>\<open>i < authTagLength\<close>.\<close>

definition tags_equal :: "bytes \<Rightarrow> bytes \<Rightarrow> nat \<Rightarrow> bool" where
  "tags_equal authTag authCode authTagLength =
     fold (\<lambda>i authenticated. authenticated \<and> view_at authTag i = view_at authCode i)
       [0..<authTagLength] True"

definition SFrameCrypto_decrypt ::
  "WebCrypto \<Rightarrow> SFrameCrypto \<Rightarrow> SFrameHeader \<Rightarrow> bytes \<Rightarrow> nat \<Rightarrow> error + bytes \<times> bytes" where
  "SFrameCrypto_decrypt cr this header encryptedFrame skip =
     (case generateIV (rawCounter header) (saltKey (cipherSuite this)) of
        Inl e \<Rightarrow> Inl e
      | Inr iv \<Rightarrow>
          let authTagLength = nT (config (cipherSuite this));
              frameLength = int (length encryptedFrame) - int skip;
              authTag = subarray encryptedFrame (int skip + frameLength - int authTagLength)
                          (int skip + frameLength);
              encryptedPayload = subarray encryptedFrame (int skip + int (length (data header)))
                                   (int skip + frameLength - int authTagLength);
              authCode = subtle_sign cr (authKey (cipherSuite this))
                           (subarray encryptedFrame (int skip)
                              (int skip + int (length (data header))
                                 + int (length encryptedPayload)))
          in if \<not> tags_equal authTag authCode authTagLength
             then Inl (JsError ''Authentication error'')
             else case subtle_decrypt cr (algorithm (config (cipherSuite this))) iv
                         (nK (config (cipherSuite this)) * 8) (data header)
                         (encryptionKey (cipherSuite this)) encryptedPayload of
                    None \<Rightarrow> Inl (JsError ''crypto.subtle.decrypt rejected'')
                  | Some payload \<Rightarrow> Inr (payload, authTag))"

definition createSFrameCrypto :: "WebCrypto \<Rightarrow> bytes \<Rightarrow> CipherSuiteVariant \<Rightarrow> error + SFrameCrypto" where
  "createSFrameCrypto cr rawKey variant =
     (case createCipherSuite cr variant rawKey of
        Inl e \<Rightarrow> Inl e
      | Inr cs \<Rightarrow> Inr \<lparr>cipherSuite = cs\<rparr>)"

section \<open>Sender.ts\<close>

text \<open>The fields \<^verbatim>\<open>counter\<close> and \<^verbatim>\<open>key\<close> of the class are \<open>senderCounter\<close> and
  \<open>senderKey\<close>. A method returns its result together with the object's new state.\<close>

record Sender =
  senderId :: int
  senderCounter :: nat
  senderKey :: "SFrameCrypto option"

definition new_Sender :: "int \<Rightarrow> error + Sender" where
  "new_Sender senderId' =
     (case checkSFrameHeaderKeyId senderId' of
        Inl e \<Rightarrow> Inl e
      | Inr _ \<Rightarrow> Inr \<lparr>senderId = senderId', senderCounter = 0, senderKey = None\<rparr>)"

definition Sender_encrypt ::
  "WebCrypto \<Rightarrow> Sender \<Rightarrow> bytes \<Rightarrow> nat \<Rightarrow> (error + bytes) \<times> Sender" where
  "Sender_encrypt cr this payloadToBeEncrypted skip =
     (case senderKey this of
        None \<Rightarrow> (Inl (SFrameError InvalidKey), this)
      | Some key \<Rightarrow>
          let counter' = senderCounter this;
              this' = this\<lparr>senderCounter := js_round (senderCounter this + 1)\<rparr>
          in case generateSFrameHeader (senderId this) counter' of
               Inl e \<Rightarrow> (Inl e, this')
             | Inr header \<Rightarrow>
                (case SFrameCrypto_encrypt cr key header payloadToBeEncrypted skip of
                   Inl e \<Rightarrow> (Inl e, this')
                 | Inr (encryptedFrame, authTag) \<Rightarrow>
                     if skip \<noteq> 0
                     then (ta_set encryptedFrame (subarray payloadToBeEncrypted 0 (int skip)) 0, this')
                     else (Inr encryptedFrame, this')))"

definition Sender_setSenderId :: "Sender \<Rightarrow> int \<Rightarrow> (error + unit) \<times> Sender" where
  "Sender_setSenderId this senderId' =
     (case checkSFrameHeaderKeyId senderId' of
        Inl e \<Rightarrow> (Inl e, this)
      | Inr _ \<Rightarrow> (Inr (), this\<lparr>senderId := senderId'\<rparr>))"

definition Sender_setEncryptionKey :: "Sender \<Rightarrow> SFrameCrypto \<Rightarrow> Sender" where
  "Sender_setEncryptionKey this key = this\<lparr>senderKey := Some key\<rparr>"

section \<open>Receiver.ts\<close>

text \<open>
  \<open>maxReceivedCounter\<close> starts at \<^verbatim>\<open>-1\<close> and may become \<^verbatim>\<open>NaN\<close> (\<open>None\<close>). The
  timer that retires older keys (\<^verbatim>\<open>schedulePreviousKeysTimeout\<close>) depends on real time
  and is not part of the model: \<open>Receiver_setEncryptionKey\<close> appends to the keyring.
\<close>

record Receiver =
  maxReceivedCounter :: "int option"
  keyring :: "SFrameCrypto list"

definition ReplayWindow :: int where
  "ReplayWindow = 128"

definition new_Receiver :: "int \<Rightarrow> error + Receiver" where
  "new_Receiver senderId' =
     (case checkSFrameHeaderKeyId senderId' of
        Inl e \<Rightarrow> Inl e
      | Inr _ \<Rightarrow> Inr \<lparr>maxReceivedCounter = Some (- 1), keyring = []\<rparr>)"

definition checkForReplayAttack :: "Receiver \<Rightarrow> SFrameHeader \<Rightarrow> error + unit" where
  "checkForReplayAttack this header =
     (case (counter header, maxReceivedCounter this) of
        (Some c, Some m) \<Rightarrow>
          if int c < m \<and> m - int c > ReplayWindow then Inl (SFrameError ReplayAttackError)
          else Inr ()
      | _ \<Rightarrow> Inr ())"

text \<open>The loop over the keyring snapshot: the first key that decrypts wins, and a key
  that throws is skipped.\<close>

fun try_keys ::
  "WebCrypto \<Rightarrow> SFrameCrypto list \<Rightarrow> SFrameHeader \<Rightarrow> bytes \<Rightarrow> nat \<Rightarrow> (bytes \<times> bytes) option" where
  "try_keys cr [] header frameToBeDecrypted skip = None"
| "try_keys cr (key # keys) header frameToBeDecrypted skip =
     (case SFrameCrypto_decrypt cr key header frameToBeDecrypted skip of
        Inr r \<Rightarrow> Some r
      | Inl e \<Rightarrow> try_keys cr keys header frameToBeDecrypted skip)"

definition js_max :: "int option \<Rightarrow> int option \<Rightarrow> int option" where
  "js_max a b = (case (a, b) of (Some x, Some y) \<Rightarrow> Some (max x y) | _ \<Rightarrow> None)"

definition Receiver_decrypt ::
  "WebCrypto \<Rightarrow> Receiver \<Rightarrow> SFrameHeader \<Rightarrow> bytes \<Rightarrow> nat \<Rightarrow> (error + bytes) \<times> Receiver" where
  "Receiver_decrypt cr this header encryptedFrame skip =
     (case checkForReplayAttack this header of
        Inl e \<Rightarrow> (Inl e, this)
      | Inr _ \<Rightarrow>
         (case try_keys cr (keyring this) header encryptedFrame skip of
            None \<Rightarrow> (Inl (SFrameError DecryptionFailure), this)
          | Some (decryptedFrame, authTag) \<Rightarrow>
             (case (if skip \<noteq> 0
                    then ta_set decryptedFrame (subarray encryptedFrame 0 (int skip)) 0
                    else Inr decryptedFrame) of
                Inl e \<Rightarrow> (Inl e, this)
              | Inr decryptedFrame' \<Rightarrow>
                  (Inr decryptedFrame',
                   this\<lparr>maxReceivedCounter :=
                          js_max (map_option int (counter header)) (maxReceivedCounter this)\<rparr>))))"

definition Receiver_setEncryptionKey :: "Receiver \<Rightarrow> SFrameCrypto \<Rightarrow> Receiver" where
  "Receiver_setEncryptionKey this key = this\<lparr>keyring := keyring this @ [key]\<rparr>"

section \<open>Context.ts\<close>

record MediaFrame =
  frameData :: bytes
  headerLength :: nat

record Context =
  sender :: "Sender option"
  receivers :: "int \<rightharpoonup> Receiver"

definition new_Context :: Context where
  "new_Context = \<lparr>sender = None, receivers = Map.empty\<rparr>"

definition Context_setSenderEncryptionKey ::
  "WebCrypto \<Rightarrow> Context \<Rightarrow> int \<Rightarrow> bytes \<Rightarrow> (error + unit) \<times> Context" where
  "Context_setSenderEncryptionKey cr this senderId' key =
     (case (case sender this of
              None \<Rightarrow> new_Sender senderId'
            | Some s \<Rightarrow> (case Sender_setSenderId s senderId' of
                           (Inl e, _) \<Rightarrow> Inl e
                         | (Inr _, s') \<Rightarrow> Inr s')) of
        Inl e \<Rightarrow> (Inl e, this)
      | Inr s \<Rightarrow>
         (case createSFrameCrypto cr key AES_GCM_256_SHA512 of
            Inl e \<Rightarrow> (Inl e, this\<lparr>sender := Some s\<rparr>)
          | Inr encryptionKey' \<Rightarrow>
              (Inr (), this\<lparr>sender := Some (Sender_setEncryptionKey s encryptionKey')\<rparr>)))"

definition Context_setReceiverEncryptionKey ::
  "WebCrypto \<Rightarrow> Context \<Rightarrow> int \<Rightarrow> bytes \<Rightarrow> (error + unit) \<times> Context" where
  "Context_setReceiverEncryptionKey cr this receiverKeyId key =
     (case (case receivers this receiverKeyId of
              Some r \<Rightarrow> Inr r
            | None \<Rightarrow> new_Receiver receiverKeyId) of
        Inl e \<Rightarrow> (Inl e, this)
      | Inr r \<Rightarrow>
         (case createSFrameCrypto cr key AES_GCM_256_SHA512 of
            Inl e \<Rightarrow> (Inl e, this\<lparr>receivers := (receivers this)(receiverKeyId \<mapsto> r)\<rparr>)
          | Inr receiverKey \<Rightarrow>
              (Inr (), this\<lparr>receivers :=
                 (receivers this)(receiverKeyId \<mapsto> Receiver_setEncryptionKey r receiverKey)\<rparr>)))"

definition Context_canEncrypt :: "Context \<Rightarrow> bool" where
  "Context_canEncrypt this = (sender this \<noteq> None)"

definition Context_encrypt ::
  "WebCrypto \<Rightarrow> Context \<Rightarrow> bytes \<Rightarrow> nat \<Rightarrow> (error + bytes) \<times> Context" where
  "Context_encrypt cr this frame skip =
     (case sender this of
        None \<Rightarrow> (Inl (SFrameError EncryptionFailure), this)
      | Some s \<Rightarrow>
          (case Sender_encrypt cr s frame skip of
             (r, s') \<Rightarrow> (r, this\<lparr>sender := Some s'\<rparr>)))"

definition Context_readKeyId :: "Context \<Rightarrow> MediaFrame \<Rightarrow> jsnum" where
  "Context_readKeyId this frame =
     (let header = parseSFrameHeader (subarray_from (frameData frame) (int (headerLength frame)))
      in keyId header)"

text \<open>\<^verbatim>\<open>this.receivers.get(header.keyId)\<close>: the keys of the map are the integers that
  \<^verbatim>\<open>setReceiverEncryptionKey\<close> was given, so a \<^verbatim>\<open>NaN\<close> key id finds nothing.\<close>

definition receivers_get :: "Context \<Rightarrow> jsnum \<Rightarrow> Receiver option" where
  "receivers_get this k = (case k of None \<Rightarrow> None | Some n \<Rightarrow> receivers this (int n))"

definition Context_decrypt ::
  "WebCrypto \<Rightarrow> Context \<Rightarrow> bytes \<Rightarrow> nat \<Rightarrow> (error + bytes) \<times> Context" where
  "Context_decrypt cr this encryptedFrame skip =
     (let header = parseSFrameHeader (subarray_from encryptedFrame (int skip))
      in case receivers_get this (keyId header) of
           None \<Rightarrow> (Inl (SFrameError InvalidKey), this)
         | Some receiver \<Rightarrow>
             (case Receiver_decrypt cr receiver header encryptedFrame skip of
                (r, receiver') \<Rightarrow>
                  (r, this\<lparr>receivers := (receivers this)(int (the (keyId header)) \<mapsto> receiver')\<rparr>)))"

section \<open>Notions used to state the properties\<close>

text \<open>The big-endian encoding of \<open>v\<close> in \<open>n\<close> bytes, and the number a byte sequence
  denotes, most significant byte first.\<close>

fun big_endian :: "nat \<Rightarrow> nat \<Rightarrow> bytes" where
  "big_endian 0 v = []"
| "big_endian (Suc n) v = big_endian n (v div 256) @ [of_nat v]"

text \<open>The parser's loop \<^verbatim>\<open>n = n * 256 + b\<close> run over a byte sequence.\<close>

definition read_bytes :: "bytes \<Rightarrow> jsnum" where
  "read_bytes bs = fold (\<lambda>b n. js_add (js_mul n (Some 256)) (Some (unat b))) bs (Some 0)"

text \<open>The terms of the series \<open>ln 2 = \<Sum>n. 1 / ((n + 1) * 2 ^ (n + 1))\<close>, from which the
  value of \<^verbatim>\<open>Math.log\<close> is bounded.\<close>

definition ln2_term :: "nat \<Rightarrow> real" where
  "ln2_term n = (1 / 2) ^ (n + 1) / real (n + 1)"

text \<open>The header length that a metadata byte announces: the byte itself, the key id
  bytes when the X bit is set, and the counter bytes.\<close>

definition announced_length :: "u8 \<Rightarrow> nat" where
  "announced_length m =
     1 + (if m AND 0x08 \<noteq> 0 then unat (m AND 0x07) + 1 else 0) + (unat (drop_bit 4 m AND 0x07) + 1)"

text \<open>The minimal byte length as the specification writes it,
  \<open>max(1, \<lceil>log\<^sub>2(v + 1) / 8\<rceil>)\<close>.\<close>

definition minimal_byte_length :: "nat \<Rightarrow> nat" where
  "minimal_byte_length v = max 1 (nat \<lceil>log 2 (real v + 1) / 8\<rceil>)"

text \<open>
  What the library relies on from the Web Crypto primitives: decryption inverts
  encryption under the same algorithm, iv, additional data and key; HMAC-SHA-256 returns
  32 bytes; HKDF returns as many bits as were asked for.
\<close>

definition webcrypto_ok :: "WebCrypto \<Rightarrow> bool" where
  "webcrypto_ok cr \<longleftrightarrow>
     (\<forall>name iv len ad key p. \<exists>c. subtle_encrypt cr name iv len ad key p = Some c
                                   \<and> subtle_decrypt cr name iv len ad key c = Some p) \<and>
     (\<forall>key m. length (subtle_sign cr key m) = 32) \<and>
     (\<forall>h ikm salt info bits. length (hkdf cr h ikm salt info bits) = bits div 8)"

text \<open>
  What the library has from the primitives under \<^verbatim>\<open>AES-GCM\<close>, the algorithm of the
  two \<^verbatim>\<open>AES_GCM\<close> suites: the same three facts, the first for that algorithm only.
\<close>

definition webcrypto_aes_gcm :: "WebCrypto \<Rightarrow> bool" where
  "webcrypto_aes_gcm cr \<longleftrightarrow>
     (\<forall>iv len ad key p. \<exists>c. subtle_encrypt cr ''AES-GCM'' iv len ad key p = Some c
                              \<and> subtle_decrypt cr ''AES-GCM'' iv len ad key c = Some p) \<and>
     (\<forall>key m. length (subtle_sign cr key m) = 32) \<and>
     (\<forall>h ikm salt info bits. length (hkdf cr h ikm salt info bits) = bits div 8)"

text \<open>
  Web Crypto's \<^verbatim>\<open>AES-CTR\<close> takes its counter block from the member \<^verbatim>\<open>counter\<close> of
  the parameters, which is required. \<^verbatim>\<open>SFrameCrypto.encrypt\<close> passes
  \<^verbatim>\<open>{name, iv, length, additionalData}\<close> whatever the algorithm, so under the name
  \<^verbatim>\<open>AES-CTR\<close> the call has no \<^verbatim>\<open>counter\<close> and the promise is rejected (the tests of
  the repository skip both \<^verbatim>\<open>AES_CM\<close> suites as not supported by Web Crypto).
\<close>

definition aes_ctr_rejected :: "WebCrypto \<Rightarrow> bool" where
  "aes_ctr_rejected cr \<longleftrightarrow>
     (\<forall>iv len ad key p. subtle_encrypt cr ''AES-CTR'' iv len ad key p = None)"

text \<open>
  The two values that \<^verbatim>\<open>SFrameCrypto.encrypt\<close> places after the header: what
  \<^verbatim>\<open>crypto.subtle.encrypt\<close> returns for the payload it is given (\<open>None\<close> when the
  IV cannot be built or the promise is rejected), and the \<open>nT\<close> bytes written behind it,
  the truncated HMAC over header and ciphertext.
\<close>

definition ciphertextCore :: "WebCrypto \<Rightarrow> SFrameCrypto \<Rightarrow> SFrameHeader \<Rightarrow> bytes \<Rightarrow> bytes option" where
  "ciphertextCore cr key header payload =
     (case generateIV (rawCounter header) (saltKey (cipherSuite key)) of
        Inl e \<Rightarrow> None
      | Inr iv \<Rightarrow>
          subtle_encrypt cr (algorithm (config (cipherSuite key))) iv
            (nK (config (cipherSuite key)) * 8) (data header)
            (encryptionKey (cipherSuite key)) payload)"

definition frame_tag :: "WebCrypto \<Rightarrow> SFrameCrypto \<Rightarrow> bytes \<Rightarrow> bytes" where
  "frame_tag cr key msg =
     (let authCode = subtle_sign cr (authKey (cipherSuite key)) msg;
          n = nT (config (cipherSuite key))
      in take n authCode @ replicate (n - length authCode) 0)"

text \<open>The frame that a sender with key \<open>k\<close> and sender id \<open>kid\<close> returns for the counter
  \<open>ctr\<close>, the payload \<open>P\<close> and the skip \<open>s\<close>.\<close>

definition sender_frame :: "WebCrypto \<Rightarrow> SFrameCrypto \<Rightarrow> int \<Rightarrow> nat \<Rightarrow> bytes \<Rightarrow> nat \<Rightarrow> bytes" where
  "sender_frame cr k kid ctr P s =
     (let h = projr (generateSFrameHeader kid ctr);
          c = the (ciphertextCore cr k h P)
      in take s P @ replicate (s - length P) 0 @ data h @ c @ frame_tag cr k (data h @ c))"

text \<open>What \<^verbatim>\<open>Context.decrypt\<close> does once it has found the receiver: the header is
  parsed from the frame after the skip region and handed to the receiver.\<close>

definition decrypt_frame ::
  "WebCrypto \<Rightarrow> Receiver \<Rightarrow> bytes \<Rightarrow> nat \<Rightarrow> (error + bytes) \<times> Receiver" where
  "decrypt_frame cr receiver encryptedFrame skip =
     Receiver_decrypt cr receiver (parseSFrameHeader (subarray_from encryptedFrame (int skip)))
       encryptedFrame skip"

text \<open>A key rejects a frame when \<^verbatim>\<open>SFrameCrypto.decrypt\<close> throws on it.\<close>

definition key_rejects :: "WebCrypto \<Rightarrow> SFrameCrypto \<Rightarrow> bytes \<Rightarrow> nat \<Rightarrow> bool" where
  "key_rejects cr key encryptedFrame skip =
     isl (SFrameCrypto_decrypt cr key (parseSFrameHeader (subarray_from encryptedFrame (int skip)))
            encryptedFrame skip)"

text \<open>The loops of the replay test: encrypt the payloads one after the other (the test
  stops at the first error), then decrypt frames one after the other, recording each
  result.\<close>

fun encrypt_all ::
  "WebCrypto \<Rightarrow> Sender \<Rightarrow> bytes list \<Rightarrow> nat \<Rightarrow> (error + bytes list) \<times> Sender" where
  "encrypt_all cr s [] skip = (Inr [], s)"
| "encrypt_all cr s (p # ps) skip =
     (case Sender_encrypt cr s p skip of
        (Inl e, s') \<Rightarrow> (Inl e, s')
      | (Inr f, s') \<Rightarrow>
          (case encrypt_all cr s' ps skip of
             (Inl e, s'') \<Rightarrow> (Inl e, s'')
           | (Inr fs, s'') \<Rightarrow> (Inr (f # fs), s'')))"

fun decrypt_all ::
  "WebCrypto \<Rightarrow> Receiver \<Rightarrow> bytes list \<Rightarrow> nat \<Rightarrow> (error + bytes) list \<times> Receiver" where
  "decrypt_all cr r [] skip = ([], r)"
| "decrypt_all cr r (f # fs) skip =
     (case decrypt_frame cr r f skip of
        (res, r') \<Rightarrow> (case decrypt_all cr r' fs skip of (rs, r'') \<Rightarrow> (res # rs, r'')))"

section \<open>A concrete instance of the primitives\<close>

text \<open>
  A small instance of the primitives, on which the functions can be evaluated. Like
  AES-GCM in Web Crypto (and as the test vectors of the repository show: a 51-byte
  plaintext after a 2-byte header gives 69 bytes before the HMAC tag), encryption under
  \<^verbatim>\<open>AES-GCM\<close> returns the ciphertext followed by a 16-byte tag; under any other name
  the ciphertext has the length of the plaintext.
\<close>

definition toy_pad :: "bytes \<Rightarrow> bytes \<Rightarrow> u8" where
  "toy_pad key iv = fold (+) (key @ iv) 0x5A"

definition toy_tag :: "bytes \<Rightarrow> bytes \<Rightarrow> bytes \<Rightarrow> bytes" where
  "toy_tag key ad p = replicate 16 (fold (+) (key @ ad @ p) 0)"

definition toy_encrypt :: "string \<Rightarrow> bytes \<Rightarrow> nat \<Rightarrow> bytes \<Rightarrow> bytes \<Rightarrow> bytes \<Rightarrow> bytes option" where
  "toy_encrypt name iv len ad key p =
     Some (map (\<lambda>b. b XOR toy_pad key iv) p @ (if name = ''AES-GCM'' then toy_tag key ad p else []))"

definition toy_decrypt :: "string \<Rightarrow> bytes \<Rightarrow> nat \<Rightarrow> bytes \<Rightarrow> bytes \<Rightarrow> bytes \<Rightarrow> bytes option" where
  "toy_decrypt name iv len ad key c =
     (if name = ''AES-GCM''
      then (let p = map (\<lambda>b. b XOR toy_pad key iv) (take (length c - 16) c)
            in if 16 \<le> length c \<and> drop (length c - 16) c = toy_tag key ad p then Some p else None)
      else Some (map (\<lambda>b. b XOR toy_pad key iv) c))"

definition toy_sign :: "bytes \<Rightarrow> bytes \<Rightarrow> bytes" where
  "toy_sign key m = replicate 32 (fold (+) (key @ m) 0)"

definition toy_hkdf :: "string \<Rightarrow> bytes \<Rightarrow> bytes \<Rightarrow> bytes \<Rightarrow> nat \<Rightarrow> bytes" where
  "toy_hkdf h ikm salt info bits = replicate (bits div 8) (fold (+) (ikm @ info) (of_nat (length h)))"

definition toy :: WebCrypto where
  "toy = \<lparr>subtle_encrypt = toy_encrypt, subtle_decrypt = toy_decrypt,
           subtle_sign = toy_sign, hkdf = toy_hkdf\<rparr>"

text \<open>Two keys derived from two raw keys, a sender that holds the first, and a receiver
  that holds the second (older) and then the first.\<close>

definition toy_rawKey :: bytes where
  "toy_rawKey = [0x30, 0x31, 0x32, 0x33, 0x34, 0x35, 0x36, 0x37,
                 0x38, 0x39, 0x3a, 0x3b, 0x3c, 0x3d, 0x3e, 0x3f]"

definition toy_otherRawKey :: bytes where
  "toy_otherRawKey = [0x2a, 0x21, 0x22, 0x23, 0x24, 0x25, 0x26, 0x27,
                      0x28, 0x29, 0x2a, 0x2b, 0x2c, 0x2d, 0x2e, 0x2f]"

definition toy_key :: SFrameCrypto where
  "toy_key = projr (createSFrameCrypto toy toy_rawKey AES_GCM_128_SHA256)"

definition toy_otherKey :: SFrameCrypto where
  "toy_otherKey = projr (createSFrameCrypto toy toy_otherRawKey AES_GCM_128_SHA256)"

definition toy_sender :: Sender where
  "toy_sender = \<lparr>senderId = 0, senderCounter = 0, senderKey = Some toy_key\<rparr>"

definition toy_receiver :: Receiver where
  "toy_receiver = \<lparr>maxReceivedCounter = Some (- 1), keyring = [toy_otherKey, toy_key]\<rparr>"

definition toy_new_receiver :: Receiver where
  "toy_new_receiver = \<lparr>maxReceivedCounter = Some (- 1), keyring = [toy_key]\<rparr>"

text \<open>The same instance with \<^verbatim>\<open>AES-CTR\<close> calls rejected, and the key it derives under
  an \<^verbatim>\<open>AES_CM\<close> suite.\<close>

definition toy_strict :: WebCrypto where
  "toy_strict =
     \<lparr>subtle_encrypt = (\<lambda>name iv len ad key p.
                           if name = ''AES-CTR'' then None else toy_encrypt name iv len ad key p),
      subtle_decrypt = (\<lambda>name iv len ad key c.
                           if name = ''AES-CTR'' then None else toy_decrypt name iv len ad key c),
      subtle_sign = toy_sign, hkdf = toy_hkdf\<rparr>"

definition toy_cm_key :: SFrameCrypto where
  "toy_cm_key = projr (createSFrameCrypto toy_strict toy_rawKey AES_CM_128_HMAC_SHA256_8)"

section \<open>Lemmas about the doubles of the length computation\<close>

lemma ln2_term_le: "ln2_term n \<le> (1 / 2) * (1 / 2) ^ n"
proof -
  have "(1 / 2 :: real) ^ (n + 1) / real (n + 1) \<le> (1 / 2) ^ (n + 1) / 1"
    by (rule divide_left_mono) simp_all
  then show ?thesis by (simp add: ln2_term_def)
qed

lemma ln2_term_summable: "summable ln2_term"
proof (rule summable_comparison_test')
  show "summable (\<lambda>n. (1 / 2) * (1 / 2 :: real) ^ n)"
    by (intro summable_mult summable_geometric) simp
  show "\<And>n. 0 \<le> n \<Longrightarrow> norm (ln2_term n) \<le> (1 / 2) * (1 / 2) ^ n"
    using ln2_term_le by (simp add: ln2_term_def)
qed

lemma ln2_term_sum: "ln 2 = (\<Sum>n. ln2_term n)"
proof -
  have "ln (1 / 2 :: real) = (\<Sum>n. (- 1) ^ n * (1 / real (n + 1)) * (1 / 2 - 1) ^ Suc n)"
    by (rule ln_series) simp_all
  also have "(\<lambda>n. (- 1) ^ n * (1 / real (n + 1)) * (1 / 2 - 1 :: real) ^ Suc n)
             = (\<lambda>n. - ln2_term n)"
  proof
    fix n
    have "(1 / 2 - 1 :: real) ^ Suc n = (- 1) ^ Suc n * (1 / 2) ^ Suc n"
      by (simp add: power_mult_distrib[symmetric])
    then show "(- 1) ^ n * (1 / real (n + 1)) * (1 / 2 - 1 :: real) ^ Suc n = - ln2_term n"
      by (simp add: ln2_term_def)
  qed
  finally have "ln (1 / 2 :: real) = - (\<Sum>n. ln2_term n)"
    by (simp add: suminf_minus[OF ln2_term_summable])
  moreover have "ln (1 / 2 :: real) = - ln 2" by (simp add: ln_div)
  ultimately show ?thesis by simp
qed

lemma ln2_partial_bounds:
  "(\<Sum>i<N. ln2_term i) \<le> ln 2" "ln 2 \<le> (\<Sum>i<N. ln2_term i) + (1 / 2) ^ N"
proof -
  have split: "ln 2 = (\<Sum>n. ln2_term (n + N)) + (\<Sum>i<N. ln2_term i)"
    unfolding ln2_term_sum by (rule suminf_split_initial_segment[OF ln2_term_summable])
  have s: "summable (\<lambda>n. ln2_term (n + N))"
    using ln2_term_summable by (simp add: summable_iff_shift)
  have "0 \<le> (\<Sum>n. ln2_term (n + N))"
    by (rule suminf_nonneg[OF s]) (simp add: ln2_term_def)
  then show "(\<Sum>i<N. ln2_term i) \<le> ln 2" using split by simp
  have g: "summable (\<lambda>n. (1 / 2) ^ N * ((1 / 2) * (1 / 2 :: real) ^ n))"
    by (intro summable_mult summable_geometric) simp
  have "(\<Sum>n. ln2_term (n + N)) \<le> (\<Sum>n. (1 / 2) ^ N * ((1 / 2) * (1 / 2 :: real) ^ n))"
  proof (rule suminf_le[OF _ s g])
    fix n
    show "ln2_term (n + N) \<le> (1 / 2) ^ N * ((1 / 2) * (1 / 2) ^ n)"
      using ln2_term_le[of "n + N"] by (simp add: power_add mult.commute)
  qed
  also have "\<dots> = (1 / 2) ^ N * (\<Sum>n. (1 / 2) * (1 / 2 :: real) ^ n)"
    by (rule suminf_mult) (intro summable_mult summable_geometric, simp)
  also have "(\<Sum>n. (1 / 2) * (1 / 2 :: real) ^ n) = (1 / 2) * (\<Sum>n. (1 / 2 :: real) ^ n)"
    by (rule suminf_mult) (intro summable_geometric, simp)
  also have "(\<Sum>n. (1 / 2 :: real) ^ n) = 2"
    by (simp add: suminf_geometric)
  finally show "ln 2 \<le> (\<Sum>i<N. ln2_term i) + (1 / 2) ^ N" using split by simp
qed

lemma ln2_sum70:
  "(\<Sum>i<70. ln2_term i)
    = 81026204946914272618346609082102250801114907729 / 116896104058966015646750947554978314987992252416"
  unfolding ln2_term_def by (simp add: eval_nat_numeral)

lemma ln2_lower: "204580938323242490556 / 2 ^ 68 < ln (2 :: real)"
proof -
  have "(204580938323242490556 / 2 ^ 68 :: real) < (\<Sum>i<70. ln2_term i)"
    unfolding ln2_sum70 by simp
  then show ?thesis using ln2_partial_bounds(1)[of 70] by simp
qed

lemma ln2_upper: "ln (2 :: real) < 204580938323242490557 / 2 ^ 68"
proof -
  have "(\<Sum>i<70. ln2_term i) + (1 / 2) ^ 70 < (204580938323242490557 / 2 ^ 68 :: real)"
    unfolding ln2_sum70 by (simp add: power_one_over)
  then show ?thesis using ln2_partial_bounds(2)[of 70] by simp
qed

lemma to_double_0: "to_double 0 = 0"
  by (simp add: to_double_def)

lemma ulp_pos [simp]: "0 < ulp e"
  by (simp add: ulp_def)

lemma ulp_nonneg [simp]: "0 \<le> ulp e"
  by (simp add: ulp_def)

lemma binade:
  assumes "0 < x"
  shows "2 powr of_int \<lfloor>log 2 x\<rfloor> \<le> x" "x < 2 powr of_int (\<lfloor>log 2 x\<rfloor> + 1)"
  using floor_log_eq_powr_iff[of x 2 "\<lfloor>log 2 x\<rfloor>"] assms by simp_all

lemma ulp_scale: "2 ^ 52 * ulp e = 2 powr of_int e"
proof -
  have "(2::real) ^ 52 = 2 powr 52" by (simp add: powr_numeral)
  then have "2 ^ 52 * ulp e = 2 powr (52 + (of_int e - 52))"
    unfolding ulp_def by (simp only: powr_add)
  then show ?thesis by simp
qed

lemma ulp_scale53: "2 ^ 53 * ulp e = 2 powr of_int (e + 1)"
proof -
  have "(2::real) ^ 53 = 2 powr 53" by (simp add: powr_numeral)
  then have "2 ^ 53 * ulp e = 2 powr (53 + (of_int e - 52))"
    unfolding ulp_def by (simp only: powr_add)
  moreover have "53 + (real_of_int e - 52) = of_int (e + 1)" by simp
  ultimately show ?thesis by (simp only:)
qed

lemma powr_int_mono: "(a :: int) \<le> b \<Longrightarrow> (2 :: real) powr of_int a \<le> 2 powr of_int b"
  by simp

text \<open>The rounded value, in units in the last place of the argument's binade.\<close>

lemma to_double_units:
  assumes "0 < x"
  defines "u \<equiv> ulp \<lfloor>log 2 x\<rfloor>"
  shows "\<exists>k :: int. to_double x = of_int k * u \<and> \<lfloor>x / u\<rfloor> \<le> k \<and> k \<le> \<lfloor>x / u\<rfloor> + 1
           \<and> (x / u - of_int \<lfloor>x / u\<rfloor> < 1 / 2 \<longrightarrow> k = \<lfloor>x / u\<rfloor>)
           \<and> (1 / 2 < x / u - of_int \<lfloor>x / u\<rfloor> \<longrightarrow> k = \<lfloor>x / u\<rfloor> + 1)
           \<and> 2 ^ 52 \<le> k \<and> k \<le> 2 ^ 53"
proof -
  define m where "m = x / u"
  define n where "n = \<lfloor>m\<rfloor>"
  have upos: "0 < u" by (simp add: u_def)
  have "2 ^ 52 * u \<le> x"
    using binade(1)[OF assms(1)] unfolding u_def ulp_scale .
  then have lo: "2 ^ 52 \<le> m"
    unfolding m_def using upos by (simp only: pos_le_divide_eq)
  have "x < 2 ^ 53 * u"
    using binade(2)[OF assms(1)] unfolding u_def ulp_scale53 .
  then have hi: "m < 2 ^ 53"
    unfolding m_def using upos by (simp only: pos_divide_less_eq)
  have "real_of_int (2 ^ 52) \<le> m" using lo by simp
  then have nlo: "2 ^ 52 \<le> n" unfolding n_def by (simp only: le_floor_iff)
  have "m < real_of_int (2 ^ 53)" using hi by simp
  then have nhi: "n < 2 ^ 53" unfolding n_def by (simp only: floor_less_iff)
  have td: "to_double x = (if m - of_int n < 1 / 2 \<or> (m - of_int n = 1 / 2 \<and> even n) then of_int n
          else of_int n + 1) * u"
    unfolding to_double_def Let_def m_def n_def u_def ..
  show ?thesis
  proof (cases "m - of_int n < 1 / 2 \<or> (m - of_int n = 1 / 2 \<and> even n)")
    case True
    then have "to_double x = of_int n * u" unfolding td by (simp only: if_True)
    moreover have "\<not> 1 / 2 < m - of_int n" using True by linarith
    ultimately show ?thesis
      using nlo nhi unfolding m_def[symmetric] n_def[symmetric]
      by (intro exI[of _ n]) simp
  next
    case False
    then have "to_double x = (of_int n + 1) * u" unfolding td by (simp only: if_False)
    then have "to_double x = of_int (n + 1) * u" by simp
    moreover have "\<not> m - of_int n < 1 / 2" using False by linarith
    ultimately show ?thesis
      using nlo nhi unfolding m_def[symmetric] n_def[symmetric]
      by (intro exI[of _ "n + 1"]) simp
  qed
qed

lemma to_double_ge_binade:
  assumes "0 < x"
  shows "2 powr of_int \<lfloor>log 2 x\<rfloor> \<le> to_double x"
proof -
  define u where "u = ulp \<lfloor>log 2 x\<rfloor>"
  have upos: "0 < u" by (simp add: u_def)
  obtain k :: int where k: "to_double x = of_int k * u" "2 ^ 52 \<le> k"
    using to_double_units[OF assms] unfolding u_def by blast
  have "real_of_int (2 ^ 52) \<le> of_int k" using k(2) by (simp only: of_int_le_iff)
  then have "2 ^ 52 * u \<le> of_int k * u" using upos by simp
  then show ?thesis unfolding k(1) u_def ulp_scale .
qed

lemma to_double_le_binade:
  assumes "0 < x"
  shows "to_double x \<le> 2 powr of_int (\<lfloor>log 2 x\<rfloor> + 1)"
proof -
  define u where "u = ulp \<lfloor>log 2 x\<rfloor>"
  have upos: "0 < u" by (simp add: u_def)
  obtain k :: int where k: "to_double x = of_int k * u" "k \<le> 2 ^ 53"
    using to_double_units[OF assms] unfolding u_def by blast
  have "of_int k \<le> real_of_int (2 ^ 53)" using k(2) by (simp only: of_int_le_iff)
  then have "of_int k * u \<le> 2 ^ 53 * u" using upos by simp
  then show ?thesis unfolding k(1) u_def ulp_scale53 .
qed

text \<open>A double \<open>M * 2 ^ (e - 52)\<close> with \<open>2 ^ 52 \<le> M < 2 ^ 53\<close> and the reals that round to at
  least, or at most, that double.\<close>

lemma mantissa_bounds:
  fixes M :: nat
  shows "2 ^ 52 \<le> M \<Longrightarrow> 2 ^ 52 * ulp e \<le> real M * ulp e"
    and "2 ^ 52 < M \<Longrightarrow> 2 ^ 52 * ulp e \<le> (real M - 1 / 2) * ulp e"
    and "M < 2 ^ 53 \<Longrightarrow> (real M + 1 / 2) * ulp e \<le> 2 ^ 53 * ulp e"
    and "M < 2 ^ 53 \<Longrightarrow> real M * ulp e \<le> 2 ^ 53 * ulp e"
proof -
  show "2 ^ 52 \<le> M \<Longrightarrow> 2 ^ 52 * ulp e \<le> real M * ulp e"
  proof -
    assume "2 ^ 52 \<le> M"
    then have "real (2 ^ 52) \<le> real M" by (simp only: of_nat_le_iff)
    then have "(2 ^ 52 :: real) \<le> real M" by simp
    then show ?thesis by (rule mult_right_mono) simp
  qed
  show "2 ^ 52 < M \<Longrightarrow> 2 ^ 52 * ulp e \<le> (real M - 1 / 2) * ulp e"
  proof -
    assume "2 ^ 52 < M"
    then have "(2 ^ 52 :: nat) + 1 \<le> M" by simp
    then have "real (2 ^ 52 + 1) \<le> real M" by (simp only: of_nat_le_iff)
    then have "(2 ^ 52 :: real) \<le> real M - 1 / 2" by simp
    then show ?thesis by (rule mult_right_mono) simp
  qed
  show "M < 2 ^ 53 \<Longrightarrow> (real M + 1 / 2) * ulp e \<le> 2 ^ 53 * ulp e"
  proof -
    assume "M < 2 ^ 53"
    then have "M + 1 \<le> 2 ^ 53" by simp
    then have "real (M + 1) \<le> real (2 ^ 53)" by (simp only: of_nat_le_iff)
    then have "real M + 1 / 2 \<le> 2 ^ 53" by simp
    then show ?thesis by (rule mult_right_mono) simp
  qed
  show "M < 2 ^ 53 \<Longrightarrow> real M * ulp e \<le> 2 ^ 53 * ulp e"
  proof -
    assume "M < 2 ^ 53"
    then have "real M < real (2 ^ 53)" by (simp only: of_nat_less_iff)
    then have "real M \<le> 2 ^ 53" by simp
    then show ?thesis by (rule mult_right_mono) simp
  qed
qed

lemma to_double_ge_half:
  fixes M :: nat and e :: int
  assumes "(real M - 1 / 2) * ulp e < x" and "2 ^ 52 < M" and "M < 2 ^ 53"
  shows "real M * ulp e \<le> to_double x"
proof -
  define ex where "ex = \<lfloor>log 2 x\<rfloor>"
  define u where "u = ulp ex"
  have "0 < 2 ^ 52 * ulp e" by simp
  then have xpos: "0 < x" using assms(1) mantissa_bounds(2)[OF assms(2), of e] by linarith
  have upos: "0 < u" by (simp add: u_def)
  obtain k :: int where k: "to_double x = of_int k * u" "\<lfloor>x / u\<rfloor> \<le> k"
      "1 / 2 < x / u - of_int \<lfloor>x / u\<rfloor> \<longrightarrow> k = \<lfloor>x / u\<rfloor> + 1"
    using to_double_units[OF xpos] unfolding u_def ex_def by blast
  consider "ex + 1 \<le> e" | "ex = e" | "e + 1 \<le> ex" by linarith
  then show ?thesis
  proof cases
    case 1
    have "x < 2 powr of_int (ex + 1)" using binade(2)[OF xpos] by (simp only: ex_def)
    also have "\<dots> \<le> 2 powr of_int e" using 1 by (rule powr_int_mono)
    also have "\<dots> = 2 ^ 52 * ulp e" by (simp only: ulp_scale)
    also have "\<dots> \<le> (real M - 1 / 2) * ulp e" by (rule mantissa_bounds(2)[OF assms(2)])
    finally show ?thesis using assms(1) by linarith
  next
    case 2
    have "(real M - 1 / 2) * u < x" using assms(1) by (simp only: u_def 2)
    then have m: "real M - 1 / 2 < x / u" using upos by (simp only: pos_less_divide_eq)
    have "int M \<le> k"
    proof (cases "int M \<le> \<lfloor>x / u\<rfloor>")
      case True
      then show ?thesis using k(2) by simp
    next
      case False
      then have f: "\<lfloor>x / u\<rfloor> \<le> int M - 1" by simp
      have "real_of_int (int M - 1) \<le> x / u" using m by simp
      then have "int M - 1 \<le> \<lfloor>x / u\<rfloor>" by (simp only: le_floor_iff)
      then have fl: "\<lfloor>x / u\<rfloor> = int M - 1" using f by simp
      then have "real_of_int \<lfloor>x / u\<rfloor> = real M - 1" by simp
      then have "1 / 2 < x / u - of_int \<lfloor>x / u\<rfloor>" using m by linarith
      then show ?thesis using k(3) fl by simp
    qed
    then have "real_of_int (int M) \<le> of_int k" by (simp only: of_int_le_iff)
    then have "real M \<le> of_int k" by simp
    then have "real M * u \<le> of_int k * u" using upos by simp
    then show ?thesis unfolding k(1) u_def 2 .
  next
    case 3
    have "real M * ulp e \<le> 2 ^ 53 * ulp e" by (rule mantissa_bounds(4)[OF assms(3)])
    also have "\<dots> = 2 powr of_int (e + 1)" by (simp only: ulp_scale53)
    also have "\<dots> \<le> 2 powr of_int ex" using 3 by (rule powr_int_mono)
    also have "\<dots> \<le> to_double x" using to_double_ge_binade[OF xpos] by (simp only: ex_def)
    finally show ?thesis .
  qed
qed

lemma to_double_ge:
  fixes M :: nat and e :: int
  assumes "real M * ulp e \<le> x" and "2 ^ 52 \<le> M" and "M < 2 ^ 53"
  shows "real M * ulp e \<le> to_double x"
proof -
  define ex where "ex = \<lfloor>log 2 x\<rfloor>"
  define u where "u = ulp ex"
  have "0 < 2 ^ 52 * ulp e" by simp
  then have xpos: "0 < x" using assms(1) mantissa_bounds(1)[OF assms(2), of e] by linarith
  have upos: "0 < u" by (simp add: u_def)
  obtain k :: int where k: "to_double x = of_int k * u" "\<lfloor>x / u\<rfloor> \<le> k"
    using to_double_units[OF xpos] unfolding u_def ex_def by blast
  consider "ex + 1 \<le> e" | "ex = e" | "e + 1 \<le> ex" by linarith
  then show ?thesis
  proof cases
    case 1
    have "x < 2 powr of_int (ex + 1)" using binade(2)[OF xpos] by (simp only: ex_def)
    also have "\<dots> \<le> 2 powr of_int e" using 1 by (rule powr_int_mono)
    also have "\<dots> = 2 ^ 52 * ulp e" by (simp only: ulp_scale)
    also have "\<dots> \<le> real M * ulp e" by (rule mantissa_bounds(1)[OF assms(2)])
    finally show ?thesis using assms(1) by linarith
  next
    case 2
    have "real M * u \<le> x" using assms(1) by (simp only: u_def 2)
    then have m: "real M \<le> x / u" using upos by (simp only: pos_le_divide_eq)
    then have "real_of_int (int M) \<le> x / u" by simp
    then have "int M \<le> \<lfloor>x / u\<rfloor>" by (simp only: le_floor_iff)
    then have "int M \<le> k" using k(2) by simp
    then have "real_of_int (int M) \<le> of_int k" by (simp only: of_int_le_iff)
    then have "real M \<le> of_int k" by simp
    then have "real M * u \<le> of_int k * u" using upos by simp
    then show ?thesis unfolding k(1) u_def 2 .
  next
    case 3
    have "real M * ulp e \<le> 2 ^ 53 * ulp e" by (rule mantissa_bounds(4)[OF assms(3)])
    also have "\<dots> = 2 powr of_int (e + 1)" by (simp only: ulp_scale53)
    also have "\<dots> \<le> 2 powr of_int ex" using 3 by (rule powr_int_mono)
    also have "\<dots> \<le> to_double x" using to_double_ge_binade[OF xpos] by (simp only: ex_def)
    finally show ?thesis .
  qed
qed

lemma to_double_le_half:
  fixes M :: nat and e :: int
  assumes "0 \<le> x" and "x < (real M + 1 / 2) * ulp e"
    and "2 ^ 52 \<le> M" and "M < 2 ^ 53"
  shows "to_double x \<le> real M * ulp e"
proof (cases "x = 0")
  case True
  have "0 \<le> real M * ulp e" by simp
  then show ?thesis unfolding True to_double_0 .
next
  case False
  then have xpos: "0 < x" using assms(1) by simp
  define ex where "ex = \<lfloor>log 2 x\<rfloor>"
  define u where "u = ulp ex"
  have upos: "0 < u" by (simp add: u_def)
  obtain k :: int where k: "to_double x = of_int k * u" "k \<le> \<lfloor>x / u\<rfloor> + 1"
      "x / u - of_int \<lfloor>x / u\<rfloor> < 1 / 2 \<longrightarrow> k = \<lfloor>x / u\<rfloor>"
    using to_double_units[OF xpos] unfolding u_def ex_def by blast
  consider "ex + 1 \<le> e" | "ex = e" | "e + 1 \<le> ex" by linarith
  then show ?thesis
  proof cases
    case 1
    have "to_double x \<le> 2 powr of_int (ex + 1)"
      using to_double_le_binade[OF xpos] by (simp only: ex_def)
    also have "\<dots> \<le> 2 powr of_int e" using 1 by (rule powr_int_mono)
    also have "\<dots> = 2 ^ 52 * ulp e" by (simp only: ulp_scale)
    also have "\<dots> \<le> real M * ulp e" by (rule mantissa_bounds(1)[OF assms(3)])
    finally show ?thesis .
  next
    case 2
    have "x < (real M + 1 / 2) * u" using assms(2) by (simp only: u_def 2)
    then have m: "x / u < real M + 1 / 2" using upos by (simp only: pos_divide_less_eq)
    have "k \<le> int M"
    proof (cases "\<lfloor>x / u\<rfloor> < int M")
      case True
      then show ?thesis using k(2) by simp
    next
      case False
      then have f: "int M \<le> \<lfloor>x / u\<rfloor>" by simp
      have "x / u < real_of_int (int M + 1)" using m by simp
      then have "\<lfloor>x / u\<rfloor> < int M + 1" by (simp only: floor_less_iff)
      then have fl: "\<lfloor>x / u\<rfloor> = int M" using f by simp
      then have "real_of_int \<lfloor>x / u\<rfloor> = real M" by simp
      then have "x / u - of_int \<lfloor>x / u\<rfloor> < 1 / 2" using m by linarith
      then show ?thesis using k(3) fl by simp
    qed
    then have "of_int k \<le> real_of_int (int M)" by (simp only: of_int_le_iff)
    then have "of_int k \<le> real M" by simp
    then have "of_int k * u \<le> real M * u" using upos by simp
    then show ?thesis unfolding k(1) u_def 2 .
  next
    case 3
    have "(real M + 1 / 2) * ulp e \<le> 2 ^ 53 * ulp e" by (rule mantissa_bounds(3)[OF assms(4)])
    also have "\<dots> = 2 powr of_int (e + 1)" by (simp only: ulp_scale53)
    also have "\<dots> \<le> 2 powr of_int ex" using 3 by (rule powr_int_mono)
    also have "\<dots> \<le> x" using binade(1)[OF xpos] by (simp only: ex_def)
    finally show ?thesis using assms(2) by linarith
  qed
qed

lemma to_double_le:
  fixes M :: nat and e :: int
  assumes "0 \<le> x" and "x \<le> real M * ulp e"
    and "2 ^ 52 \<le> M" and "M < 2 ^ 53"
  shows "to_double x \<le> real M * ulp e"
proof -
  have "real M * ulp e < (real M + 1 / 2) * ulp e"
    by (rule mult_strict_right_mono) simp_all
  then have "x < (real M + 1 / 2) * ulp e" using assms(2) by linarith
  then show ?thesis by (rule to_double_le_half[OF assms(1) _ assms(3,4)])
qed

lemma ulp_numeral:
  "ulp 5 = 1 / 2 ^ 47" "ulp 4 = 1 / 2 ^ 48" "ulp 3 = 1 / 2 ^ 49" "ulp 2 = 1 / 2 ^ 50"
  "ulp 1 = 1 / 2 ^ 51" "ulp 0 = 1 / 2 ^ 52" "ulp (- 1) = 1 / 2 ^ 53"
  by (simp_all add: ulp_def powr_neg_numeral)

lemma to_double_nonneg: "0 \<le> x \<Longrightarrow> 0 \<le> to_double x"
proof (cases "x = 0")
  case True
  then show ?thesis by (simp add: to_double_0)
next
  case False
  assume "0 \<le> x"
  with False have xpos: "0 < x" by simp
  have "0 \<le> 2 powr real_of_int \<lfloor>log 2 x\<rfloor>" by simp
  then show ?thesis using to_double_ge_binade[OF xpos] by linarith
qed

lemma to_double_eqI:
  fixes M :: nat and e :: int
  assumes "(real M - 1 / 2) * ulp e < x" and "x < (real M + 1 / 2) * ulp e"
    and "2 ^ 52 < M" and "M < 2 ^ 53"
  shows "to_double x = real M * ulp e"
proof -
  have "0 < 2 ^ 52 * ulp e" by simp
  then have "0 \<le> x" using assms(1) mantissa_bounds(2)[OF assms(3), of e] by linarith
  then have "to_double x \<le> real M * ulp e"
    using assms by (intro to_double_le_half) simp_all
  moreover have "real M * ulp e \<le> to_double x"
    using assms by (intro to_double_ge_half) simp_all
  ultimately show ?thesis by simp
qed

lemma ln_256: "ln (256 :: real) = 8 * ln 2"
proof -
  have "(256 :: real) = 2 ^ 8" by simp
  then show ?thesis by (simp only: ln_realpow)
qed

lemma Math_log_256: "Math_log 256 = 6243314768165359 / 2 ^ 50"
proof -
  have "to_double (ln 256) = real 6243314768165359 * ulp 2"
  proof (rule to_double_eqI)
    show "(real 6243314768165359 - 1 / 2) * ulp 2 < ln 256"
      using ln2_lower unfolding ln_256 ulp_numeral by simp
    show "ln 256 < (real 6243314768165359 + 1 / 2) * ulp 2"
      using ln2_upper unfolding ln_256 ulp_numeral by simp
  qed simp_all
  then show ?thesis by (simp add: Math_log_def ulp_numeral)
qed

lemma ln_below_power:
  fixes v d n :: nat
  assumes "0 < v" and "real v \<le> 2 ^ n - real d" 
  shows "ln (real v) \<le> real n * ln 2 - real d / 2 ^ n"
proof -
  have pos: "(0 :: real) < 2 ^ n - real d" using assms by linarith
  then have q: "0 < (2 ^ n - real d) / 2 ^ n" by simp
  have "ln (real v) \<le> ln (2 ^ n - real d)"
    using assms by (simp add: ln_mono)
  also have "2 ^ n - real d = 2 ^ n * ((2 ^ n - real d) / 2 ^ n)" by simp
  also have "ln \<dots> = ln (2 ^ n) + ln ((2 ^ n - real d) / 2 ^ n)"
    by (rule ln_mult_pos) (use q in simp_all)
  also have "ln ((2 ::real) ^ n) = real n * ln 2" by (simp only: ln_realpow)
  also have "ln ((2 ^ n - real d) / 2 ^ n) \<le> (2 ^ n - real d) / 2 ^ n - 1"
    using q by (rule ln_le_minus_one)
  also have "(2 ^ n - real d) / 2 ^ n - 1 = - (real d / 2 ^ n)"
    by (simp add: diff_divide_distrib)
  finally show ?thesis by simp
qed

lemma ln_above_power:
  fixes v d n :: nat
  assumes "2 ^ n - real d \<le> real v" and "real d / 2 ^ n \<le> 1 / 2"
  shows "real n * ln 2 - real d / 2 ^ n - 2 * (real d / 2 ^ n)\<^sup>2 \<le> ln (real v)"
proof -
  define x where "x = real d / 2 ^ n"
  have x0: "0 \<le> x" by (simp add: x_def)
  have x1: "x \<le> 1 / 2" using assms(2) by (simp add: x_def)
  have e: "2 ^ n - real d = 2 ^ n * (1 - x)" by (simp add: x_def algebra_simps)
  have pos: "(0 :: real) < 2 ^ n - real d" unfolding e using x1 by simp
  have "- x - 2 * x\<^sup>2 \<le> ln (1 - x)" using x0 x1 by (rule ln_one_minus_pos_lower_bound)
  moreover have "ln (2 ^ n * (1 - x)) = ln (2 ^ n) + ln (1 - x)"
    by (rule ln_mult_pos) (use x1 in simp_all)
  moreover have "ln ((2 ::real) ^ n) = real n * ln 2" by (simp only: ln_realpow)
  moreover have "ln (2 ^ n - real d) \<le> ln (real v)"
    using assms(1) pos by (simp add: ln_mono)
  ultimately show ?thesis unfolding x_def[symmetric] e by linarith
qed

lemma Math_log_256_pos: "0 < Math_log 256"
  by (simp add: Math_log_256)

lemma KLEN_geI_half:
  fixes M M' :: nat
  assumes "v \<noteq> 0"
    and "(real M - 1 / 2) * ulp e < ln (real v)" and "2 ^ 52 < M" and "M < 2 ^ 53"
    and "(real M' - 1 / 2) * ulp e' < real M * ulp e / (6243314768165359 / 2 ^ 50)"
    and "2 ^ 52 < M'" and "M' < 2 ^ 53"
    and "real k \<le> real M' * ulp e'"
  shows "k \<le> calculateKLENorLEN v"
proof -
  have "real M * ulp e \<le> Math_log v"
    unfolding Math_log_def by (rule to_double_ge_half[OF assms(2-4)])
  then have "real M * ulp e / Math_log 256 \<le> Math_log v / Math_log 256"
    using Math_log_256_pos by (simp add: divide_right_mono)
  then have "(real M' - 1 / 2) * ulp e' < Math_log v / Math_log 256"
    using assms(5) unfolding Math_log_256 by linarith
  then have "real M' * ulp e' \<le> js_divide (Math_log v) (Math_log 256)"
    unfolding js_divide_def by (rule to_double_ge_half[OF _ assms(6,7)])
  then have "real_of_int (int k) \<le> js_divide (Math_log v) (Math_log 256)"
    using assms(8) by simp
  then have "int k \<le> \<lfloor>js_divide (Math_log v) (Math_log 256)\<rfloor>"
    by (simp only: le_floor_iff)
  then show ?thesis using assms(1) by (simp add: calculateKLENorLEN_def)
qed

lemma KLEN_geI:
  fixes M M' :: nat
  assumes "v \<noteq> 0"
    and "(real M - 1 / 2) * ulp e < ln (real v)" and "2 ^ 52 < M" and "M < 2 ^ 53"
    and "real M' * ulp e' \<le> real M * ulp e / (6243314768165359 / 2 ^ 50)"
    and "2 ^ 52 \<le> M'" and "M' < 2 ^ 53"
    and "real k \<le> real M' * ulp e'"
  shows "k \<le> calculateKLENorLEN v"
proof -
  have "real M * ulp e \<le> Math_log v"
    unfolding Math_log_def by (rule to_double_ge_half[OF assms(2-4)])
  then have "real M * ulp e / Math_log 256 \<le> Math_log v / Math_log 256"
    using Math_log_256_pos by (simp add: divide_right_mono)
  then have "real M' * ulp e' \<le> Math_log v / Math_log 256"
    using assms(5) unfolding Math_log_256 by linarith
  then have "real M' * ulp e' \<le> js_divide (Math_log v) (Math_log 256)"
    unfolding js_divide_def by (rule to_double_ge[OF _ assms(6,7)])
  then have "real_of_int (int k) \<le> js_divide (Math_log v) (Math_log 256)"
    using assms(8) by simp
  then have "int k \<le> \<lfloor>js_divide (Math_log v) (Math_log 256)\<rfloor>"
    by (simp only: le_floor_iff)
  then show ?thesis using assms(1) by (simp add: calculateKLENorLEN_def)
qed

lemma KLEN_lessI:
  fixes M M' :: nat
  assumes "v \<noteq> 0"
    and "ln (real v) < (real M + 1 / 2) * ulp e" and "2 ^ 52 \<le> M" and "M < 2 ^ 53"
    and "real M * ulp e / (6243314768165359 / 2 ^ 50) < (real M' + 1 / 2) * ulp e'"
    and "2 ^ 52 \<le> M'" and "M' < 2 ^ 53"
    and "real M' * ulp e' < real k"
  shows "calculateKLENorLEN v < k"
proof -
  have "1 \<le> real v" using assms(1) by simp
  then have l0: "0 \<le> ln (real v)" by simp
  have le: "Math_log v \<le> real M * ulp e"
    unfolding Math_log_def by (rule to_double_le_half[OF l0 assms(2-4)])
  have m0: "0 \<le> Math_log v" unfolding Math_log_def using l0 by (rule to_double_nonneg)
  have q0: "0 \<le> Math_log v / Math_log 256" using m0 Math_log_256_pos by simp
  have "Math_log v / Math_log 256 \<le> real M * ulp e / Math_log 256"
    using le Math_log_256_pos by (simp add: divide_right_mono)
  then have "Math_log v / Math_log 256 < (real M' + 1 / 2) * ulp e'"
    using assms(5) unfolding Math_log_256 by linarith
  then have "js_divide (Math_log v) (Math_log 256) \<le> real M' * ulp e'"
    unfolding js_divide_def by (rule to_double_le_half[OF q0 _ assms(6,7)])
  then have "js_divide (Math_log v) (Math_log 256) < real_of_int (int k)"
    using assms(8) by simp
  then have "\<lfloor>js_divide (Math_log v) (Math_log 256)\<rfloor> < int k"
    by (simp only: floor_less_iff)
  moreover have "0 \<le> real M' * ulp e'" by simp
  then have "0 < real k" using assms(8) by linarith
  then have "0 < k" by simp
  ultimately have "nat \<lfloor>js_divide (Math_log v) (Math_log 256)\<rfloor> < k" by linarith
  then show ?thesis using assms(1) by (simp add: calculateKLENorLEN_def)
qed

lemma KLEN_ge_1:
  assumes "256 ^ 1 \<le> v"
  shows "1 \<le> calculateKLENorLEN v"
proof (rule KLEN_geI[where M = 6243314768165359 and e = "2" and M' = 4503599627370496 and e' = "0"])
  have "real (256 ^ 1) \<le> real v" using assms by (simp only: of_nat_le_iff)
  then have v: "2 ^ 8 - real 0 \<le> real v" by simp
  show "v \<noteq> 0" using assms by (auto intro: ccontr)
  have "real 8 * ln 2 - real 0 / 2 ^ 8 - 2 * (real 0 / 2 ^ 8)\<^sup>2 \<le> ln (real v)"
    using v by (rule ln_above_power) simp
  then show "(real 6243314768165359 - 1 / 2) * ulp 2 < ln (real v)"
    using ln2_lower by (simp add: ulp_numeral power_divide)
qed (simp_all add: ulp_numeral)

lemma KLEN_ge_2:
  assumes "256 ^ 2 \<le> v"
  shows "2 \<le> calculateKLENorLEN v"
proof (rule KLEN_geI[where M = 6243314768165359 and e = "3" and M' = 4503599627370496 and e' = "1"])
  have "real (256 ^ 2) \<le> real v" using assms by (simp only: of_nat_le_iff)
  then have v: "2 ^ 16 - real 0 \<le> real v" by simp
  show "v \<noteq> 0" using assms by (auto intro: ccontr)
  have "real 16 * ln 2 - real 0 / 2 ^ 16 - 2 * (real 0 / 2 ^ 16)\<^sup>2 \<le> ln (real v)"
    using v by (rule ln_above_power) simp
  then show "(real 6243314768165359 - 1 / 2) * ulp 3 < ln (real v)"
    using ln2_lower by (simp add: ulp_numeral power_divide)
qed (simp_all add: ulp_numeral)

lemma KLEN_ge_3:
  assumes "256 ^ 3 \<le> v"
  shows "3 \<le> calculateKLENorLEN v"
proof (rule KLEN_geI_half[where M = 4682486076124019 and e = "4" and M' = 6755399441055744 and e' = "1"])
  have "real (256 ^ 3) \<le> real v" using assms by (simp only: of_nat_le_iff)
  then have v: "2 ^ 24 - real 0 \<le> real v" by simp
  show "v \<noteq> 0" using assms by (auto intro: ccontr)
  have "real 24 * ln 2 - real 0 / 2 ^ 24 - 2 * (real 0 / 2 ^ 24)\<^sup>2 \<le> ln (real v)"
    using v by (rule ln_above_power) simp
  then show "(real 4682486076124019 - 1 / 2) * ulp 4 < ln (real v)"
    using ln2_lower by (simp add: ulp_numeral power_divide)
qed (simp_all add: ulp_numeral)

lemma KLEN_ge_4:
  assumes "256 ^ 4 \<le> v"
  shows "4 \<le> calculateKLENorLEN v"
proof (rule KLEN_geI[where M = 6243314768165359 and e = "4" and M' = 4503599627370496 and e' = "2"])
  have "real (256 ^ 4) \<le> real v" using assms by (simp only: of_nat_le_iff)
  then have v: "2 ^ 32 - real 0 \<le> real v" by simp
  show "v \<noteq> 0" using assms by (auto intro: ccontr)
  have "real 32 * ln 2 - real 0 / 2 ^ 32 - 2 * (real 0 / 2 ^ 32)\<^sup>2 \<le> ln (real v)"
    using v by (rule ln_above_power) simp
  then show "(real 6243314768165359 - 1 / 2) * ulp 4 < ln (real v)"
    using ln2_lower by (simp add: ulp_numeral power_divide)
qed (simp_all add: ulp_numeral)

lemma KLEN_ge_5:
  assumes "256 ^ 5 \<le> v"
  shows "5 \<le> calculateKLENorLEN v"
proof (rule KLEN_geI[where M = 7804143460206699 and e = "4" and M' = 5629499534213120 and e' = "2"])
  have "real (256 ^ 5) \<le> real v" using assms by (simp only: of_nat_le_iff)
  then have v: "2 ^ 40 - real 0 \<le> real v" by simp
  show "v \<noteq> 0" using assms by (auto intro: ccontr)
  have "real 40 * ln 2 - real 0 / 2 ^ 40 - 2 * (real 0 / 2 ^ 40)\<^sup>2 \<le> ln (real v)"
    using v by (rule ln_above_power) simp
  then show "(real 7804143460206699 - 1 / 2) * ulp 4 < ln (real v)"
    using ln2_lower by (simp add: ulp_numeral power_divide)
qed (simp_all add: ulp_numeral)

lemma KLEN_ge_6:
  assumes "2 ^ 48 - 1 \<le> v"
  shows "6 \<le> calculateKLENorLEN v"
proof (rule KLEN_geI_half[where M = 4682486076124019 and e = "5" and M' = 6755399441055744 and e' = "2"])
  have "real (2 ^ 48 - 1) \<le> real v" using assms by (simp only: of_nat_le_iff)
  then have v: "2 ^ 48 - real 1 \<le> real v" by simp
  show "v \<noteq> 0" using assms by (auto intro: ccontr)
  have "real 48 * ln 2 - real 1 / 2 ^ 48 - 2 * (real 1 / 2 ^ 48)\<^sup>2 \<le> ln (real v)"
    using v by (rule ln_above_power) simp
  then show "(real 4682486076124019 - 1 / 2) * ulp 5 < ln (real v)"
    using ln2_lower by (simp add: ulp_numeral power_divide)
qed (simp_all add: ulp_numeral)

lemma KLEN_ge_7:
  assumes "2 ^ 56 - 408 \<le> v"
  shows "7 \<le> calculateKLENorLEN v"
proof (rule KLEN_geI_half[where M = 5462900422144689 and e = "5" and M' = 7881299347898368 and e' = "2"])
  have "real (2 ^ 56 - 408) \<le> real v" using assms by (simp only: of_nat_le_iff)
  then have v: "2 ^ 56 - real 408 \<le> real v" by simp
  show "v \<noteq> 0" using assms by (auto intro: ccontr)
  have "real 56 * ln 2 - real 408 / 2 ^ 56 - 2 * (real 408 / 2 ^ 56)\<^sup>2 \<le> ln (real v)"
    using v by (rule ln_above_power) simp
  then show "(real 5462900422144689 - 1 / 2) * ulp 5 < ln (real v)"
    using ln2_lower by (simp add: ulp_numeral power_divide)
qed (simp_all add: ulp_numeral)

lemma KLEN_ge_8:
  assumes "2 ^ 64 - 92160 \<le> v"
  shows "8 \<le> calculateKLENorLEN v"
proof (rule KLEN_geI[where M = 6243314768165359 and e = "5" and M' = 4503599627370496 and e' = "3"])
  have "real (2 ^ 64 - 92160) \<le> real v" using assms by (simp only: of_nat_le_iff)
  then have v: "2 ^ 64 - real 92160 \<le> real v" by simp
  show "v \<noteq> 0" using assms by (auto intro: ccontr)
  have "real 64 * ln 2 - real 92160 / 2 ^ 64 - 2 * (real 92160 / 2 ^ 64)\<^sup>2 \<le> ln (real v)"
    using v by (rule ln_above_power) simp
  then show "(real 6243314768165359 - 1 / 2) * ulp 5 < ln (real v)"
    using ln2_lower by (simp add: ulp_numeral power_divide)
qed (simp_all add: ulp_numeral)

lemma KLEN_less_1:
  assumes "v \<noteq> 0" and "v \<le> 256 ^ 1 - 1"
  shows "calculateKLENorLEN v < 1"
proof (rule KLEN_lessI[where M = 6238916721654255 and e = "2" and M' = 9000854214849823 and e' = "- 1"])
  show "v \<noteq> 0" by (rule assms(1))
  have "real v \<le> real (256 ^ 1 - 1)" using assms(2) by (simp only: of_nat_le_iff)
  then have "real v \<le> 2 ^ 8 - real 1" by simp
  then have "ln (real v) \<le> real 8 * ln 2 - real 1 / 2 ^ 8"
    using assms(1) by (intro ln_below_power) simp_all
  then show "ln (real v) < (real 6238916721654255 + 1 / 2) * ulp 2"
    using ln2_upper by (simp add: ulp_numeral)
qed (simp_all add: ulp_numeral)

lemma KLEN_less_2:
  assumes "v \<noteq> 0" and "v \<le> 256 ^ 2 - 1"
  shows "calculateKLENorLEN v < 2"
proof (rule KLEN_lessI[where M = 6243306178230767 and e = "3" and M' = 9007186862084955 and e' = "0"])
  show "v \<noteq> 0" by (rule assms(1))
  have "real v \<le> real (256 ^ 2 - 1)" using assms(2) by (simp only: of_nat_le_iff)
  then have "real v \<le> 2 ^ 16 - real 1" by simp
  then have "ln (real v) \<le> real 16 * ln 2 - real 1 / 2 ^ 16"
    using assms(1) by (intro ln_below_power) simp_all
  then show "ln (real v) < (real 6243306178230767 + 1 / 2) * ulp 3"
    using ln2_upper by (simp add: ulp_numeral)
qed (simp_all add: ulp_numeral)

lemma KLEN_less_3:
  assumes "v \<noteq> 0" and "v \<le> 256 ^ 3 - 1"
  shows "calculateKLENorLEN v < 3"
proof (rule KLEN_lessI[where M = 4682486059346803 and e = "4" and M' = 6755399416851337 and e' = "1"])
  show "v \<noteq> 0" by (rule assms(1))
  have "real v \<le> real (256 ^ 3 - 1)" using assms(2) by (simp only: of_nat_le_iff)
  then have "real v \<le> 2 ^ 24 - real 1" by simp
  then have "ln (real v) \<le> real 24 * ln 2 - real 1 / 2 ^ 24"
    using assms(1) by (intro ln_below_power) simp_all
  then show "ln (real v) < (real 4682486059346803 + 1 / 2) * ulp 4"
    using ln2_upper by (simp add: ulp_numeral)
qed (simp_all add: ulp_numeral)

lemma KLEN_less_4:
  assumes "v \<noteq> 0" and "v \<le> 256 ^ 4 - 1"
  shows "calculateKLENorLEN v < 4"
proof (rule KLEN_lessI[where M = 6243314768099823 and e = "4" and M' = 9007199254646444 and e' = "1"])
  show "v \<noteq> 0" by (rule assms(1))
  have "real v \<le> real (256 ^ 4 - 1)" using assms(2) by (simp only: of_nat_le_iff)
  then have "real v \<le> 2 ^ 32 - real 1" by simp
  then have "ln (real v) \<le> real 32 * ln 2 - real 1 / 2 ^ 32"
    using assms(1) by (intro ln_below_power) simp_all
  then show "ln (real v) < (real 6243314768099823 + 1 / 2) * ulp 4"
    using ln2_upper by (simp add: ulp_numeral)
qed (simp_all add: ulp_numeral)

lemma KLEN_less_5:
  assumes "v \<noteq> 0" and "v \<le> 256 ^ 5 - 1"
  shows "calculateKLENorLEN v < 5"
proof (rule KLEN_lessI[where M = 7804143460206443 and e = "4" and M' = 5629499534212936 and e' = "2"])
  show "v \<noteq> 0" by (rule assms(1))
  have "real v \<le> real (256 ^ 5 - 1)" using assms(2) by (simp only: of_nat_le_iff)
  then have "real v \<le> 2 ^ 40 - real 1" by simp
  then have "ln (real v) \<le> real 40 * ln 2 - real 1 / 2 ^ 40"
    using assms(1) by (intro ln_below_power) simp_all
  then show "ln (real v) < (real 7804143460206443 + 1 / 2) * ulp 4"
    using ln2_upper by (simp add: ulp_numeral)
qed (simp_all add: ulp_numeral)

lemma KLEN_less_6:
  assumes "v \<noteq> 0" and "v \<le> 2 ^ 48 - 2"
  shows "calculateKLENorLEN v < 6"
proof (rule KLEN_lessI[where M = 4682486076124018 and e = "5" and M' = 6755399441055742 and e' = "2"])
  show "v \<noteq> 0" by (rule assms(1))
  have "real v \<le> real (2 ^ 48 - 2)" using assms(2) by (simp only: of_nat_le_iff)
  then have "real v \<le> 2 ^ 48 - real 2" by simp
  then have "ln (real v) \<le> real 48 * ln 2 - real 2 / 2 ^ 48"
    using assms(1) by (intro ln_below_power) simp_all
  then show "ln (real v) < (real 4682486076124018 + 1 / 2) * ulp 5"
    using ln2_upper by (simp add: ulp_numeral)
qed (simp_all add: ulp_numeral)

lemma KLEN_less_7:
  assumes "v \<noteq> 0" and "v \<le> 2 ^ 56 - 416"
  shows "calculateKLENorLEN v < 7"
proof (rule KLEN_lessI[where M = 5462900422144688 and e = "5" and M' = 7881299347898366 and e' = "2"])
  show "v \<noteq> 0" by (rule assms(1))
  have "real v \<le> real (2 ^ 56 - 416)" using assms(2) by (simp only: of_nat_le_iff)
  then have "real v \<le> 2 ^ 56 - real 416" by simp
  then have "ln (real v) \<le> real 56 * ln 2 - real 416 / 2 ^ 56"
    using assms(1) by (intro ln_below_power) simp_all
  then show "ln (real v) < (real 5462900422144688 + 1 / 2) * ulp 5"
    using ln2_upper by (simp add: ulp_numeral)
qed (simp_all add: ulp_numeral)

lemma KLEN_less_8:
  assumes "v \<noteq> 0" and "v \<le> 2 ^ 64 - 94208"
  shows "calculateKLENorLEN v < 8"
proof (rule KLEN_lessI[where M = 6243314768165358 and e = "5" and M' = 9007199254740991 and e' = "2"])
  show "v \<noteq> 0" by (rule assms(1))
  have "real v \<le> real (2 ^ 64 - 94208)" using assms(2) by (simp only: of_nat_le_iff)
  then have "real v \<le> 2 ^ 64 - real 94208" by simp
  then have "ln (real v) \<le> real 64 * ln 2 - real 94208 / 2 ^ 64"
    using assms(1) by (intro ln_below_power) simp_all
  then show "ln (real v) < (real 6243314768165358 + 1 / 2) * ulp 5"
    using ln2_upper by (simp add: ulp_numeral)
qed (simp_all add: ulp_numeral)

lemma KLEN_less_9:
  assumes "v \<noteq> 0" and "v \<le> 2 ^ 64"
  shows "calculateKLENorLEN v < 9"
proof (rule KLEN_lessI[where M = 6243314768165359 and e = "5" and M' = 4503599627370496 and e' = "3"])
  show "v \<noteq> 0" by (rule assms(1))
  have "real v \<le> real (2 ^ 64)" using assms(2) by (simp only: of_nat_le_iff)
  then have "real v \<le> 2 ^ 64 - real 0" by simp
  then have "ln (real v) \<le> real 64 * ln 2 - real 0 / 2 ^ 64"
    using assms(1) by (intro ln_below_power) simp_all
  then show "ln (real v) < (real 6243314768165359 + 1 / 2) * ulp 5"
    using ln2_upper by (simp add: ulp_numeral)
qed (simp_all add: ulp_numeral)

section \<open>Lemmas about the header codec\<close>

lemma length_big_endian [simp]: "length (big_endian n v) = n"
  by (induction n arbitrary: v) auto

lemma big_endian_rev_map: "big_endian n v = rev (map (\<lambda>j. of_nat (v div 256 ^ j)) [0..<n])"
proof (induction n arbitrary: v)
  case 0
  then show ?case by simp
next
  case (Suc n)
  have "map (\<lambda>j. (of_nat (v div 256 ^ j) :: u8)) [0..<Suc n]
        = of_nat v # map (\<lambda>j. of_nat (v div 256 div 256 ^ j)) [0..<n]"
    by (simp add: upt_conv_Cons map_Suc_upt[symmetric] div_mult2_eq del: upt_Suc)
  then show ?case using Suc by simp
qed

lemma ucast_drop_bit_of_nat:
  assumes "j < 8"
  shows "(ucast (drop_bit (8 * j) (of_nat v :: 64 word)) :: u8) = of_nat (v div 256 ^ j)"
proof -
  have p: "(256::nat) ^ j = 2 ^ (8 * j)" by (simp add: power_mult)
  show ?thesis
    unfolding p
    by (rule bit_word_eqI) (use assms in \<open>auto simp add: bit_simps drop_bit_eq_div[symmetric]\<close>)
qed

lemma subarray_0 [simp]: "subarray xs 0 (int n) = take n xs"
  by (simp add: subarray_def rel_index_def Let_def min_def)

lemma subarray_nat: "subarray xs (int b) (int e) = take (e - b) (drop b xs)"
  by (auto simp add: subarray_def rel_index_def Let_def min_def)

lemma toUint8ArrayViaI64_be: "n \<le> 8 \<Longrightarrow> toUint8ArrayViaI64 v n = big_endian n v"
  by (simp add: toUint8ArrayViaI64_def u64_bytes_def big_endian_rev_map take_map ucast_drop_bit_of_nat)

lemma and7: "(a :: u8) AND 7 = take_bit 3 a"
proof -
  have "(7 :: u8) = mask 3" by (simp add: mask_eq_exp_minus_1)
  then show ?thesis by (simp add: take_bit_eq_mask)
qed

lemma and8: "(m :: u8) AND 8 \<noteq> 0 \<longleftrightarrow> bit m 3"
  by (simp add: bit_iff_and_push_bit_not_eq_0)

lemma metadata_byte_eq:
  "metadata_byte ctrLEN x k
     = push_bit 4 (of_nat ctrLEN AND 0x07) OR push_bit 3 (of_bool x) OR (of_nat k AND 0x07)"
proof -
  have "push_bit 3 (push_bit 1 (push_bit 3 (0::u8) OR (of_nat ctrLEN AND 7)) OR of_bool x) OR (of_nat k AND 7)
      = push_bit 4 (of_nat ctrLEN AND 0x07) OR push_bit 3 (of_bool x) OR (of_nat k AND 0x07)"
    by (simp only: push_bit_or push_bit_push_bit push_bit_of_0 or.left_neutral) (simp add: or.assoc)
  moreover have "(if x then 1 else 0) = (of_bool x :: u8)" by simp
  ultimately show ?thesis
    unfolding metadata_byte_def Let_def by (simp only:)
qed


lemma fold_update_upt:
  "n \<le> length bs \<Longrightarrow> off + length bs \<le> length h \<Longrightarrow>
   fold (\<lambda>i h. h[off + i := to_int32 (view_at bs i)]) [0..<n] h
     = take off h @ take n bs @ drop (off + n) h"
proof (induction n)
  case 0
  then show ?case by simp
next
  case (Suc n)
  then have n: "n < length bs" by simp
  have "(take off h @ take n bs @ drop (off + n) h)[off + n := bs ! n]
        = take off h @ take n bs @ (drop (off + n) h)[0 := bs ! n]"
    using Suc.prems by (simp add: list_update_append min_def)
  also have "(drop (off + n) h)[0 := bs ! n] = bs ! n # drop (off + Suc n) h"
    using Suc.prems by (cases "drop (off + n) h") (auto simp: drop_Suc drop_tl[symmetric] simp flip: tl_drop)
  finally show ?case
    using Suc n by (simp add: view_at_def to_int32_def take_Suc_conv_app_nth)
qed

lemma addToHeaderViaI64_eq:
  assumes "len \<le> 8" "off + len \<le> length h"
  shows "addToHeaderViaI64 h off v len = take off h @ big_endian len v @ drop (off + len) h"
  using assms fold_update_upt[of len "big_endian len v" off h]
  by (simp add: addToHeaderViaI64_def toUint8ArrayViaI64_be)

lemma metadata_fields:
  fixes a b :: u8
  assumes "m = push_bit 4 (take_bit 3 a) OR push_bit 3 (of_bool x) OR take_bit 3 b"
  shows "take_bit 3 (drop_bit 4 m) = take_bit 3 a" 
    and "bit m 3 \<longleftrightarrow> x" 
    and "take_bit 3 m = take_bit 3 b"
proof -
  show "take_bit 3 (drop_bit 4 m) = take_bit 3 a"
    unfolding assms by (rule bit_word_eqI) (auto simp add: bit_simps)
  show "bit m 3 \<longleftrightarrow> x"
    unfolding assms by (auto simp add: bit_simps)
  show "take_bit 3 m = take_bit 3 b"
    unfolding assms by (rule bit_word_eqI) (auto simp add: bit_simps)
qed

lemma floorlog_pos: "0 < v \<Longrightarrow> 1 < b \<Longrightarrow> 0 < floorlog b v"
  by (simp add: floorlog_def)

text \<open>The computed length field is never too small for the value, and it is the minimal
  one below \<open>2 ^ 48 - 1\<close>. From there on the rounding of the logarithms shows: the length
  field is \<open>6\<close> already at \<open>2 ^ 48 - 1\<close>, \<open>7\<close> from \<open>2 ^ 56 - 408\<close> and \<open>8\<close> from
  \<open>2 ^ 64 - 92160\<close>.\<close>

lemma KLEN_0 [simp]: "calculateKLENorLEN 0 = 0"
  by (simp add: calculateKLENorLEN_def)

text \<open>The quotient whose integer part is taken is \<open>0\<close> at \<open>1\<close> and at least \<open>1 / 8\<close> from
  \<open>2\<close> on.\<close>

lemma quotient_ge_eighth:
  assumes "2 \<le> i"
  shows "1 / 8 \<le> js_divide (Math_log i) (Math_log 256)"
proof -
  have u3: "ulp (- 3) = 1 / 2 ^ 55" by (simp add: ulp_def powr_neg_numeral)
  have "ln 2 \<le> ln (real i)" using assms by simp
  then have "(real 6243314768165359 - 1 / 2) * ulp (- 1) < ln (real i)"
    using ln2_lower by (simp add: ulp_numeral)
  then have "real 6243314768165359 * ulp (- 1) \<le> Math_log i"
    unfolding Math_log_def by (rule to_double_ge_half) simp_all
  then have "real 6243314768165359 * ulp (- 1) / Math_log 256 \<le> Math_log i / Math_log 256"
    using Math_log_256_pos by (simp add: divide_right_mono)
  then have "real 4503599627370496 * ulp (- 3) \<le> Math_log i / Math_log 256"
    unfolding Math_log_256 by (simp add: ulp_numeral u3)
  then have "real 4503599627370496 * ulp (- 3) \<le> js_divide (Math_log i) (Math_log 256)"
    unfolding js_divide_def by (rule to_double_ge) simp_all
  then show ?thesis by (simp add: u3)
qed

lemma quotient_at_1: "js_divide (Math_log 1) (Math_log 256) = 0"
  by (simp add: js_divide_def Math_log_def to_double_0)

lemma KLEN_ge:
  assumes "256 ^ k \<le> v" and "k \<le> 8"
  shows "k \<le> calculateKLENorLEN v"
proof -
  consider "k = 0" | "k = 1" | "k = 2" | "k = 3" | "k = 4" | "k = 5" | "k = 6" | "k = 7" | "k = 8"
    using assms(2) by linarith
  then show ?thesis
  proof cases
    case 1
    then show ?thesis by simp
  next
    case 2
    then show ?thesis using KLEN_ge_1[of v] assms(1) by simp
  next
    case 3
    then show ?thesis using KLEN_ge_2[of v] assms(1) by simp
  next
    case 4
    then show ?thesis using KLEN_ge_3[of v] assms(1) by simp
  next
    case 5
    then show ?thesis using KLEN_ge_4[of v] assms(1) by simp
  next
    case 6
    then show ?thesis using KLEN_ge_5[of v] assms(1) by simp
  next
    case 7
    then show ?thesis using KLEN_ge_6[of v] assms(1) by simp
  next
    case 8
    then show ?thesis using KLEN_ge_7[of v] assms(1) by simp
  next
    case 9
    then show ?thesis using KLEN_ge_8[of v] assms(1) by simp
  qed
qed

lemma KLEN_upper:
  assumes "v < 2 ^ 64"
  shows "v < 256 ^ (calculateKLENorLEN v + 1)"
proof (rule ccontr)
  assume "\<not> v < 256 ^ (calculateKLENorLEN v + 1)"
  then have ge: "256 ^ (calculateKLENorLEN v + 1) \<le> v" by simp
  show False
  proof (cases "calculateKLENorLEN v + 1 \<le> 8")
    case True
    then show False using KLEN_ge[OF ge] by simp
  next
    case False
    then have "9 \<le> calculateKLENorLEN v + 1" by simp
    then have "(256 :: nat) ^ 9 \<le> 256 ^ (calculateKLENorLEN v + 1)"
      by (rule power_increasing) simp
    then have "(256 :: nat) ^ 9 \<le> v" using ge by (rule order_trans)
    then show False using assms by simp
  qed
qed

lemma KLEN_8:
  assumes "2 ^ 64 - 92160 \<le> v" and "v \<le> 2 ^ 64"
  shows "calculateKLENorLEN v = 8"
proof -
  have "v \<noteq> 0" using assms(1) by (auto intro: ccontr)
  then show ?thesis using KLEN_ge_8[OF assms(1)] KLEN_less_9[OF _ assms(2)] by simp
qed

lemma KLEN_le_6: "v \<le> 2 ^ 53 \<Longrightarrow> calculateKLENorLEN v \<le> 6"
  using KLEN_less_7[of v] by (cases "v = 0") simp_all

lemma KLEN_le_7: "v \<le> 2 ^ 53 \<Longrightarrow> calculateKLENorLEN v \<le> 7"
  using KLEN_le_6[of v] by simp

lemma KLEN_eqI:
  assumes "256 ^ k \<le> v" and "v < 256 ^ (k + 1)" and "v < 2 ^ 48 - 1"
  shows "calculateKLENorLEN v = k"
proof -
  have "(256 :: nat) ^ k < 256 ^ 6" using assms(1,3) by simp
  then have k5: "k < 6" by (simp only: power_strict_increasing_iff) 
  then have lo: "k \<le> calculateKLENorLEN v" using KLEN_ge[OF assms(1)] by simp
  have v0: "v \<noteq> 0" using assms(1) by (auto intro: ccontr)
  consider "k = 0" | "k = 1" | "k = 2" | "k = 3" | "k = 4" | "k = 5"
    using k5 by linarith
  then have "calculateKLENorLEN v < k + 1"
  proof cases
    case 1
    then show ?thesis using KLEN_less_1[OF v0] assms(2) by simp
  next
    case 2
    then show ?thesis using KLEN_less_2[OF v0] assms(2) by simp
  next
    case 3
    then show ?thesis using KLEN_less_3[OF v0] assms(2) by simp
  next
    case 4
    then show ?thesis using KLEN_less_4[OF v0] assms(2) by simp
  next
    case 5
    then show ?thesis using KLEN_less_5[OF v0] assms(2) by simp
  next
    case 6
    then show ?thesis using KLEN_less_6[OF v0] assms(3) by simp
  qed
  then show ?thesis using lo by simp
qed

lemma KLEN_floorlog:
  assumes "v < 2 ^ 48 - 1"
  shows "calculateKLENorLEN v = floorlog 256 v - 1"
proof (cases "v = 0")
  case True
  then show ?thesis by (simp add: floorlog_def)
next
  case False
  then have p: "0 < floorlog 256 v" by (simp add: floorlog_pos)
  have "256 ^ (floorlog 256 v - 1) \<le> v" "v < 256 ^ floorlog 256 v"
    using False floorlog_bounds[of v 256] by simp_all
  then show ?thesis using p assms by (intro KLEN_eqI) simp_all
qed

lemma KLEN_6:
  assumes "2 ^ 48 - 1 \<le> v" and "v \<le> 2 ^ 56 - 416"
  shows "calculateKLENorLEN v = 6"
proof -
  have "v \<noteq> 0" using assms(1) by (auto intro: ccontr)
  then show ?thesis using KLEN_ge_6[OF assms(1)] KLEN_less_7[OF _ assms(2)] by simp
qed

lemma KLEN_7:
  assumes "2 ^ 56 - 408 \<le> v" and "v \<le> 2 ^ 64 - 94208"
  shows "calculateKLENorLEN v = 7"
proof -
  have "v \<noteq> 0" using assms(1) by (auto intro: ccontr)
  then show ?thesis using KLEN_ge_7[OF assms(1)] KLEN_less_8[OF _ assms(2)] by simp
qed

lemma floorlog2_div: "0 < n div 2 ^ k \<Longrightarrow> floorlog 2 n = floorlog 2 (n div 2 ^ k) + k"
proof (induction k arbitrary: n)
  case 0
  then show ?case by simp
next
  case (Suc k)
  have eq: "n div 2 ^ Suc k = (n div 2) div 2 ^ k" by (simp add: div_mult2_eq)
  then have "0 < (n div 2) div 2 ^ k" using Suc.prems by simp
  then have "floorlog 2 (n div 2) = floorlog 2 (n div 2 ^ Suc k) + k"
    using Suc.IH[of "n div 2"] eq by simp
  moreover have "0 < n" using Suc.prems by (auto intro: ccontr)
  then have "floorlog 2 n = floorlog 2 (n div 2) + 1" by (subst compute_floorlog) simp
  ultimately show ?case by simp
qed

lemma is_double_iff: "is_double n \<longleftrightarrow> n < 2 ^ 53 \<or> 2 ^ (floorlog 2 n - 53) dvd n"
proof (cases "n < 2 ^ 53")
  case True
  then show ?thesis by (simp add: is_double_def js_round_def)
next
  case False
  define e where "e = floorlog 2 n - 53"
  show ?thesis
  proof
    assume "is_double n"
    then have "n = n div 2 ^ e * 2 ^ e \<or> n = (n div 2 ^ e + 1) * 2 ^ e"
      using False unfolding is_double_def js_round_def Let_def e_def[symmetric]
      by (simp split: if_splits)
    then have "2 ^ e dvd n" by (metis dvd_triv_right)
    then show "n < 2 ^ 53 \<or> 2 ^ (floorlog 2 n - 53) dvd n" by (simp add: e_def)
  next
    assume "n < 2 ^ 53 \<or> 2 ^ (floorlog 2 n - 53) dvd n"
    then have d: "2 ^ e dvd n" using False by (simp add: e_def)
    then have "n mod 2 ^ e = 0" "n div 2 ^ e * 2 ^ e = n" by auto
    then show "is_double n"
      using False unfolding is_double_def js_round_def Let_def e_def[symmetric]
      by simp
  qed
qed

lemma is_double_small: "n \<le> 2 ^ 53 \<Longrightarrow> is_double n"
proof (cases "n < 2 ^ 53")
  case True
  then show ?thesis by (simp add: is_double_iff)
next
  case False
  assume "n \<le> 2 ^ 53"
  with False have n: "n = 1 * 2 ^ 53" by simp
  have "floorlog 2 n = 54" unfolding n by (subst floorlog_power) (simp_all add: floorlog_def)
  then show ?thesis by (simp add: is_double_iff n)
qed

lemma is_double_div256: assumes "is_double n" shows "is_double (n div 256)"
proof (cases "n div 256 < 2 ^ 53")
  case True
  then show ?thesis by (simp add: is_double_iff)
next
  case False
  then have big: "2 ^ 53 \<le> n div 256" by simp
  then have pos: "0 < n div 2 ^ 8" by simp
  have fl: "floorlog 2 n = floorlog 2 (n div 256) + 8" using floorlog2_div[OF pos] by simp
  have "\<not> floorlog 2 (n div 256) \<le> 53" using big by (simp add: floorlog_le_iff)
  then have f54: "54 \<le> floorlog 2 (n div 256)" by simp
  define e where "e = floorlog 2 (n div 256) - 53"
  have "\<not> n < 2 ^ 53" using big by simp
  then have "2 ^ (floorlog 2 n - 53) dvd n" using assms by (simp add: is_double_iff)
  moreover have "floorlog 2 n - 53 = e + 8" using fl f54 by (simp add: e_def)
  ultimately obtain m where "n = 2 ^ (e + 8) * m" by (auto simp: dvd_def)
  then have "n div 256 = 2 ^ e * m" by (simp add: power_add)
  then have "2 ^ e dvd n div 256" by simp
  then show ?thesis unfolding is_double_iff e_def by (rule disjI2)
qed

lemma is_double_mul256: assumes "is_double n" shows "is_double (n * 256)"
proof (cases "n * 256 < 2 ^ 53")
  case True
  then show ?thesis by (simp add: is_double_iff)
next
  case False
  then have pos: "0 < n" by (auto intro: ccontr)
  have fl: "floorlog 2 (n * 256) = floorlog 2 n + 8"
    using floorlog_power[of n 2 8] pos by simp
  show ?thesis
  proof (cases "n < 2 ^ 53")
    case True
    then have "floorlog 2 n \<le> 53" by (simp add: floorlog_le_iff)
    then have "floorlog 2 (n * 256) - 53 \<le> 8" using fl by simp
    then have "(2::nat) ^ (floorlog 2 (n * 256) - 53) dvd 2 ^ 8" by (rule le_imp_power_dvd)
    then have "2 ^ (floorlog 2 (n * 256) - 53) dvd n * 256" by (simp add: dvd_mult)
    then show ?thesis by (simp add: is_double_iff)
  next
    case False
    then have "\<not> floorlog 2 n \<le> 53" by (simp add: floorlog_le_iff)
    then have "floorlog 2 (n * 256) - 53 = (floorlog 2 n - 53) + 8" using fl by simp
    moreover have "2 ^ (floorlog 2 n - 53) dvd n" using assms False by (simp add: is_double_iff)
    ultimately have "2 ^ (floorlog 2 (n * 256) - 53) dvd n * 256"
      by (simp add: power_add mult_dvd_mono)
    then show ?thesis by (simp add: is_double_iff)
  qed
qed

lemma read_number_append:
  "read_number (pre @ bs @ post) (length pre) (length bs) = read_bytes bs"
proof -
  have "fold (\<lambda>i n. js_add (js_mul n (Some 256)) (to_jsnum (view_at (pre @ bs @ post) (length pre + i))))
          [0..<length bs] (Some 0)
        = fold (\<lambda>i n. js_add (js_mul n (Some 256)) (Some (unat (bs ! i)))) [0..<length bs] (Some 0)"
    by (rule fold_cong) (auto simp add: view_at_def to_jsnum_def nth_append)
  also have "\<dots> = fold ((\<lambda>b n. js_add (js_mul n (Some 256)) (Some (unat b))) \<circ> (!) bs) [0..<length bs] (Some 0)"
    by (simp add: comp_def)
  also have "\<dots> = fold (\<lambda>b n. js_add (js_mul n (Some 256)) (Some (unat b))) (map ((!) bs) [0..<length bs]) (Some 0)"
    by (simp add: fold_map)
  finally show ?thesis by (simp add: read_number_def read_bytes_def map_nth)
qed

lemma read_bytes_be:
  "v < 256 ^ n \<Longrightarrow> is_double v \<Longrightarrow> read_bytes (big_endian n v) = Some v"
proof (induction n arbitrary: v)
  case 0
  then show ?case by (simp add: read_bytes_def)
next
  case (Suc n)
  have lt: "v div 256 < 256 ^ n" using Suc.prems(1) by (simp add: less_mult_imp_div_less)
  have d: "is_double (v div 256)" using Suc.prems(2) by (rule is_double_div256)
  have ih: "read_bytes (big_endian n (v div 256)) = Some (v div 256)" using Suc.IH[OF lt d] .
  have m: "js_round (v div 256 * 256) = v div 256 * 256"
    using is_double_mul256[OF d] by (simp add: is_double_def)
  have u: "unat (of_nat v :: u8) = v mod 256" by (simp add: unat_of_nat)
  have "v div 256 * 256 + v mod 256 = v" by simp
  then have a: "js_round (v div 256 * 256 + v mod 256) = v"
    using Suc.prems(2) by (simp add: is_double_def)
  have "read_bytes (big_endian (Suc n) v)
        = js_add (js_mul (read_bytes (big_endian n (v div 256))) (Some 256)) (Some (unat (of_nat v :: u8)))"
    by (simp add: read_bytes_def)
  then show ?case using Suc.prems(2) by (simp add: ih js_add_def js_mul_def m u a is_double_def)
qed

lemma subarray_nonneg:
  "0 \<le> b \<Longrightarrow> 0 \<le> e \<Longrightarrow> subarray xs b e = take (nat e - nat b) (drop (nat b) xs)"
  by (auto simp add: subarray_def rel_index_def Let_def min_def)

lemma generateSFrameHeader_eq:
  assumes "0 \<le> kid" "kid \<le> SFRAME_HEADER_MAXKEYID" "calculateKLENorLEN ctr \<le> 7"
  shows "generateSFrameHeader kid ctr =
     Inr \<lparr>data = metadata_byte (calculateKLENorLEN ctr) (kid > 7)
                    (if kid > 7 then calculateKLENorLEN (nat kid) else nat kid)
                  # (if kid > 7 then big_endian (calculateKLENorLEN (nat kid) + 1) (nat kid) else [])
                  @ big_endian (calculateKLENorLEN ctr + 1) ctr,
          keyId = Some (nat kid),
          counter = Some ctr,
          rawCounter = big_endian (calculateKLENorLEN ctr + 1) ctr\<rparr>"
proof -
  have c7: "calculateKLENorLEN ctr \<le> 7" by (rule assms(3))
  have "nat kid \<le> 2 ^ 53" using assms(2) by (simp add: SFRAME_HEADER_MAXKEYID_def)
  then have k7: "calculateKLENorLEN (nat kid) \<le> 6" by (rule KLEN_le_6)
  have chk: "checkSFrameHeaderKeyId kid = Inr ()"
    using assms by (simp add: checkSFrameHeaderKeyId_def)
  show ?thesis
  proof (cases "kid > 7")
    case True
    show ?thesis
      using True c7 k7
      by (simp add: generateSFrameHeader_def chk Let_def lengthAdjustment_def
          addToHeaderViaI64_eq subarray_nonneg nat_add_distrib del: big_endian.simps)
  next
    case False
    show ?thesis
      using False c7
      by (simp add: generateSFrameHeader_def chk Let_def lengthAdjustment_def
          addToHeaderViaI64_eq subarray_nonneg nat_add_distrib del: big_endian.simps)
  qed
qed

lemma generateSFrameHeader_Inr:
  assumes "generateSFrameHeader kid ctr = Inr h"
  shows "calculateKLENorLEN ctr \<le> 7"
  using assms
  by (auto simp add: generateSFrameHeader_def Let_def split: sum.splits if_splits)

lemma generateSFrameHeader_too_long:
  assumes "0 \<le> kid" "kid \<le> SFRAME_HEADER_MAXKEYID" "7 < calculateKLENorLEN ctr"
  shows "generateSFrameHeader kid ctr
           = Inl (JsError ''The length of the CTR fields in bytes must be between 1-8'')"
  using assms by (simp add: generateSFrameHeader_def checkSFrameHeaderKeyId_def Let_def)

lemma unat_low3: "n \<le> 7 \<Longrightarrow> unat (take_bit 3 (of_nat n :: u8)) = n"
  by (simp add: unsigned_take_bit_eq unat_of_nat take_bit_nat_eq_self_iff)

lemma metadata_byte_fields:
  assumes "cl \<le> 7" "k \<le> 7"
  shows "unat (drop_bit 4 (metadata_byte cl x k) AND 0x07) = cl"
    and "metadata_byte cl x k AND 0x08 \<noteq> 0 \<longleftrightarrow> x"
    and "unat (metadata_byte cl x k AND 0x07) = k"
proof -
  have m: "metadata_byte cl x k
      = push_bit 4 (take_bit 3 (of_nat cl)) OR push_bit 3 (of_bool x) OR take_bit 3 (of_nat k)"
    by (simp add: metadata_byte_eq and7)
  show "unat (drop_bit 4 (metadata_byte cl x k) AND 0x07) = cl"
    using metadata_fields(1)[OF m] assms(1) by (simp add: and7 unat_low3)
  show "metadata_byte cl x k AND 0x08 \<noteq> 0 \<longleftrightarrow> x"
    using metadata_fields(2)[OF m] by (simp only: and8)
  show "unat (metadata_byte cl x k AND 0x07) = k"
    using metadata_fields(3)[OF m] assms(2) by (simp add: and7 unat_low3)
qed

lemma to_int32_view_at_0: "to_int32 (view_at (b # bs) 0) = b"
  by (simp add: view_at_def to_int32_def)

lemma parseSFrameHeader_wellformed:
  assumes "cl \<le> 7" "k \<le> 7" "length kb = (if x then k + 1 else 0)" "length cb = cl + 1"
  shows "parseSFrameHeader (metadata_byte cl x k # kb @ cb @ rest) =
     \<lparr>data = metadata_byte cl x k # kb @ cb,
      keyId = (if x then read_bytes kb else Some k),
      counter = read_bytes cb,
      rawCounter = cb\<rparr>"
proof -
  let ?m = "metadata_byte cl x k"
  let ?view = "?m # kb @ cb @ rest"
  note f = metadata_byte_fields[OF assms(1,2), of x]
  have rk: "x \<Longrightarrow> read_number ?view 1 (k + 1) = read_bytes kb"
    using read_number_append[of "[?m]" kb "cb @ rest"] assms(3) by simp
  have rc: "read_number ?view (1 + length kb) (cl + 1) = read_bytes cb"
    using read_number_append[of "?m # kb" cb rest] assms(4) by simp
  show ?thesis
  proof (cases x)
    case True
    then show ?thesis
      using assms(3,4) rk rc f
      unfolding parseSFrameHeader_def Let_def subarray_nat subarray_0
      by (simp add: to_int32_view_at_0 lengthAdjustment_def)
  next
    case False
    then show ?thesis
      using assms(3,4) rc f
      unfolding parseSFrameHeader_def Let_def subarray_nat subarray_0
      by (simp add: to_int32_view_at_0 lengthAdjustment_def)
  qed
qed

lemma parse_generate:
  assumes "0 \<le> kid" "kid \<le> SFRAME_HEADER_MAXKEYID" "ctr < 2 ^ 64" "is_double ctr"
    and "generateSFrameHeader kid ctr = Inr h"
  shows "parseSFrameHeader (data h @ rest) = h"
proof -
  let ?cl = "calculateKLENorLEN ctr"
  let ?x = "kid > 7"
  let ?k = "if kid > 7 then calculateKLENorLEN (nat kid) else nat kid"
  let ?kb = "if kid > 7 then big_endian (calculateKLENorLEN (nat kid) + 1) (nat kid) else []"
  let ?cb = "big_endian (?cl + 1) ctr"
  have c7: "?cl \<le> 7" using assms(5) by (rule generateSFrameHeader_Inr)
  have h: "h = \<lparr>data = metadata_byte ?cl ?x ?k # ?kb @ ?cb, keyId = Some (nat kid),
                 counter = Some ctr, rawCounter = ?cb\<rparr>"
    using generateSFrameHeader_eq[OF assms(1,2) c7] assms(5) by simp
  have k53: "nat kid \<le> 2 ^ 53" using assms(2) by (simp add: SFRAME_HEADER_MAXKEYID_def)
  then have "calculateKLENorLEN (nat kid) \<le> 6" by (rule KLEN_le_6)
  then have k7: "?k \<le> 7" using assms(1) by auto
  have k64: "nat kid < 2 ^ 64" using k53 by (rule le_less_trans) simp
  have lk: "length ?kb = (if ?x then ?k + 1 else 0)" by simp
  have lc: "length ?cb = ?cl + 1" by simp
  have dk: "is_double (nat kid)"
    using assms(2) by (intro is_double_small) (simp add: SFRAME_HEADER_MAXKEYID_def)
  have rk: "?x \<Longrightarrow> read_bytes ?kb = Some (nat kid)"
    using read_bytes_be[OF KLEN_upper[OF k64] dk] by simp
  have rc: "read_bytes ?cb = Some ctr"
    using read_bytes_be[OF KLEN_upper[OF assms(3)] assms(4)] .
  have "parseSFrameHeader (metadata_byte ?cl ?x ?k # ?kb @ ?cb @ rest) =
     \<lparr>data = metadata_byte ?cl ?x ?k # ?kb @ ?cb,
      keyId = (if ?x then read_bytes ?kb else Some ?k),
      counter = read_bytes ?cb,
      rawCounter = ?cb\<rparr>"
    by (rule parseSFrameHeader_wellformed[OF c7 k7 lk lc])
  then show ?thesis using rk rc by (simp add: h del: big_endian.simps)
qed

section \<open>Lemmas about the IV\<close>

lemma for_loop_append:
  "for_loop (xs @ ys) body s =
     (case for_loop xs body s of Inl e \<Rightarrow> Inl e | Inr s' \<Rightarrow> for_loop ys body s')"
  by (induction xs arbitrary: s) (auto split: sum.splits)

lemma for_loop_snoc:
  "for_loop [0..<n] body s = Inr s' \<Longrightarrow> for_loop [0..<Suc n] body s = body n s'"
  by (simp add: for_loop_append split: sum.splits)

lemma update_middle:
  "length a = i \<Longrightarrow> (a @ x # b)[i := y] = a @ y # b"
  by (simp add: list_update_append)

lemma drop_as_Cons: "i < length xs \<Longrightarrow> drop i xs = xs ! i # drop (Suc i) xs"
  by (simp add: Cons_nth_drop_Suc)

lemma iv_first_loop:
  assumes "length c \<le> length iv" "n \<le> length c"
  shows "for_loop [0..<n]
           (\<lambda>i view. setUint8 view (int (length iv) - int (length c) + int i) (to_int32 (view_at c i))) iv
         = Inr (take (length iv - length c) iv @ take n c @ drop (length iv - length c + n) iv)"
  using assms(2)
proof (induction n)
  case 0
  then show ?case by simp
next
  case (Suc n)
  let ?o = "length iv - length c"
  let ?body = "\<lambda>i view. setUint8 view (int (length iv) - int (length c) + int i) (to_int32 (view_at c i))"
  let ?s = "take ?o iv @ take n c @ drop (?o + n) iv"
  have n: "n < length c" using Suc.prems by simp
  have idx: "int (length iv) - int (length c) + int n = int (?o + n)" using assms(1) by simp
  have len: "?o + n < length iv" using assms(1) n by simp
  have ih: "for_loop [0..<n] ?body iv = Inr ?s" using Suc.IH n by simp
  have ls: "length ?s = length iv" using len by simp
  have d: "drop (?o + n) iv = iv ! (?o + n) # drop (?o + Suc n) iv"
    using drop_as_Cons[OF len] by simp
  have la: "length (take ?o iv @ take n c) = ?o + n" using n len by simp
  have upd: "?s[?o + n := c ! n] = take ?o iv @ take (Suc n) c @ drop (?o + Suc n) iv"
    unfolding d using update_middle[OF la, of "iv ! (?o + n)" "drop (?o + Suc n) iv" "c ! n"] n
    by (simp add: take_Suc_conv_app_nth)
  have "?body n ?s = Inr (?s[?o + n := c ! n])"
    unfolding setUint8_def idx using len ls n by (simp add: view_at_def to_int32_def nat_int_add)
  then show ?case
    unfolding for_loop_snoc[OF ih] upd by simp
qed


lemma iv_second_loop:
  assumes "length salt = length v" "n \<le> length v"
  shows "for_loop [0..<n]
           (\<lambda>i view. setUint8 view (int i) (to_int32 (view_at view i) XOR to_int32 (view_at salt i))) v
         = Inr (map2 (XOR) (take n v) (take n salt) @ drop n v)"
  using assms(2)
proof (induction n)
  case 0
  then show ?case by simp
next
  case (Suc n)
  let ?body = "\<lambda>i view. setUint8 view (int i) (to_int32 (view_at view i) XOR to_int32 (view_at salt i))"
  let ?a = "map2 (XOR) (take n v) (take n salt)"
  let ?s = "?a @ drop n v"
  have n: "n < length v" "n < length salt" using Suc.prems assms(1) by simp_all
  have ih: "for_loop [0..<n] ?body v = Inr ?s" using Suc.IH n by simp
  have la: "length ?a = n" using n by simp
  have d: "drop n v = v ! n # drop (Suc n) v" using drop_as_Cons[OF n(1)] .
  have sn: "?s ! n = v ! n" using la n by (simp add: nth_append)
  have ls: "length ?s = length v" using n by simp
  have upd: "?s[n := v ! n XOR salt ! n] = map2 (XOR) (take (Suc n) v) (take (Suc n) salt) @ drop (Suc n) v"
    unfolding d using update_middle[OF la, of "v ! n" "drop (Suc n) v" "v ! n XOR salt ! n"] n
    by (simp add: take_Suc_conv_app_nth)
  have "?body n ?s = Inr (?s[n := v ! n XOR salt ! n])"
    unfolding setUint8_def using n ls sn by (simp add: view_at_def to_int32_def)
  then show ?case
    unfolding for_loop_snoc[OF ih] upd by simp
qed

lemma generateIV_eq:
  assumes "length c \<le> length salt"
  shows "generateIV c salt = Inr (map2 (XOR) (replicate (length salt - length c) 0 @ c) salt)"
proof -
  let ?iv = "replicate (length salt) (0 :: u8)"
  let ?v = "replicate (length salt - length c) (0 :: u8) @ c"
  have 1: "for_loop [0..<length c]
           (\<lambda>i view. setUint8 view (int (length salt) - int (length c) + int i) (to_int32 (view_at c i))) ?iv
         = Inr ?v"
    using iv_first_loop[of c ?iv "length c"] assms by simp
  have lv: "length ?v = length salt" using assms by simp
  have 2: "for_loop [0..<length salt]
           (\<lambda>i view. setUint8 view (int i) (to_int32 (view_at view i) XOR to_int32 (view_at salt i))) ?v
         = Inr (map2 (XOR) ?v salt)"
    using iv_second_loop[of salt ?v "length salt"] lv by simp
  show ?thesis
    unfolding generateIV_def Let_def 1 by (simp add: 2)
qed

lemma generateIV_too_long:
  assumes "length salt < length c"
  shows "generateIV c salt = Inl (SFrameError InitializationVectorError)"
proof -
  have "[0..<length c] = 0 # [Suc 0..<length c]" using assms by (subst upt_rec) auto
  then show ?thesis
    using assms unfolding generateIV_def Let_def by (simp add: setUint8_def)
qed

lemma big_endian_numeral [simp]:
  "big_endian (numeral k) v = big_endian (pred_numeral k) (v div 256) @ [of_nat v]"
  unfolding numeral_eq_Suc[of k] by (rule big_endian.simps(2))

lemma minimal_byte_length_eq:
  assumes "v < 2 ^ 48 - 1"
  shows "minimal_byte_length v = calculateKLENorLEN v + 1"
proof (cases "v = 0")
  case True
  then show ?thesis by (simp add: minimal_byte_length_def)
next
  case False
  let ?k = "calculateKLENorLEN v"
  have k: "?k = floorlog 256 v - 1" using assms by (rule KLEN_floorlog)
  have p: "0 < floorlog 256 v" using False by (simp add: floorlog_pos)
  have "256 ^ (floorlog 256 v - 1) \<le> v" "v < 256 ^ floorlog 256 v"
    using False floorlog_bounds[of v 256] by simp_all
  then have lo: "256 ^ ?k < v + 1" and hi: "v + 1 \<le> 256 ^ (?k + 1)"
    using p unfolding k by simp_all
  have "\<lceil>log (real (256::nat)) (real (v + 1))\<rceil> = int ?k + 1"
    using ceiling_log_nat_eq_if[OF lo hi] by simp
  moreover have "log 2 (real v + 1) / 8 = log (real (256::nat)) (real (v + 1))"
    using log_base_pow[of 2 8 "real (v + 1)"] by (simp add: add.commute)
  ultimately have "\<lceil>log 2 (real v + 1) / 8\<rceil> = int ?k + 1"
    by (simp only:)
  then show ?thesis by (simp add: minimal_byte_length_def)
qed

lemma minimal_byte_length_power: "0 < n \<Longrightarrow> minimal_byte_length (2 ^ (8 * n) - 1) = n"
proof -
  assume n: "0 < n"
  have "real ((2 :: nat) ^ (8 * n) - 1) + 1 = 2 ^ (8 * n)" by (simp add: of_nat_diff)
  then have "log 2 (real ((2 :: nat) ^ (8 * n) - 1) + 1) / 8 = real n" by simp
  then show ?thesis using n by (simp add: minimal_byte_length_def)
qed

section \<open>The header codec: claims\<close>

text \<open>
  Below \<open>2 ^ 48 - 1\<close> the header is laid out with the minimal byte lengths: the metadata
  byte \<open>((LEN & 7) << 4) | (X << 3) | (K & 7)\<close>, then the key id big-endian when it is
  extended, then the counter big-endian, each in \<open>max(1, \<lceil>log\<^sub>2(v + 1) / 8\<rceil>)\<close> bytes. The two
  vectors of the specification are instances.
\<close>

lemma generate_layout_minimal:
  assumes "0 \<le> kid" and "kid < 2 ^ 48 - 1" and "ctr < 2 ^ 48 - 1"
  shows "\<exists>h. generateSFrameHeader kid ctr = Inr h \<and>
           data h =
             (push_bit 4 (of_nat (minimal_byte_length ctr - 1) AND 0x07)
                OR push_bit 3 (of_bool (kid > 7))
                OR (of_nat (if kid > 7 then minimal_byte_length (nat kid) - 1 else nat kid) AND 0x07))
             # (if kid > 7 then big_endian (minimal_byte_length (nat kid)) (nat kid) else [])
             @ big_endian (minimal_byte_length ctr) ctr"
proof -
  have m: "kid \<le> SFRAME_HEADER_MAXKEYID" using assms(2) by (simp add: SFRAME_HEADER_MAXKEYID_def)
  have c: "ctr \<le> 2 ^ 53" using assms(3) by simp
  have k: "nat kid < 2 ^ 48 - 1" using assms(1,2) by simp
  show ?thesis
    using generateSFrameHeader_eq[OF assms(1) m KLEN_le_7[OF c]]
    by (simp add: minimal_byte_length_eq[OF k] minimal_byte_length_eq[OF assms(3)]
        metadata_byte_eq del: big_endian.simps big_endian_numeral)
qed

lemma generate_vectors:
  "(\<exists>h. generateSFrameHeader 0xbbccdd 0xff = Inr h \<and> data h = [0x0a, 0xbb, 0xcc, 0xdd, 0xff])
   \<and> (\<exists>h. generateSFrameHeader 0xbbccddee 0x100 = Inr h
            \<and> data h = [0x1b, 0xbb, 0xcc, 0xdd, 0xee, 0x01, 0x00])"
proof -
  have k1: "calculateKLENorLEN 0xbbccdd = 2" by (rule KLEN_eqI) simp_all
  have c1: "calculateKLENorLEN 0xff = 0" by (rule KLEN_eqI) simp_all
  have k2: "calculateKLENorLEN 0xbbccddee = 3" by (rule KLEN_eqI) simp_all
  have c2: "calculateKLENorLEN 0x100 = 1" by (rule KLEN_eqI) simp_all
  have m: "0xbbccdd \<le> SFRAME_HEADER_MAXKEYID" "0xbbccddee \<le> SFRAME_HEADER_MAXKEYID"
    by (simp_all add: SFRAME_HEADER_MAXKEYID_def)
  have "generateSFrameHeader 0xbbccdd 0xff
        = Inr \<lparr>data = [0x0a, 0xbb, 0xcc, 0xdd, 0xff], keyId = Some 0xbbccdd, counter = Some 0xff,
               rawCounter = [0xff]\<rparr>"
    using generateSFrameHeader_eq[of "0xbbccdd" "0xff"] m(1)
    by (simp add: k1 c1 metadata_byte_def)
  moreover have "generateSFrameHeader 0xbbccddee 0x100
        = Inr \<lparr>data = [0x1b, 0xbb, 0xcc, 0xdd, 0xee, 0x01, 0x00], keyId = Some 0xbbccddee,
               counter = Some 0x100, rawCounter = [0x01, 0x00]\<rparr>"
    using generateSFrameHeader_eq[of "0xbbccddee" "0x100"] m(2)
    by (simp add: k2 c2 metadata_byte_def)
  ultimately show ?thesis by simp
qed

text \<open>
  Whenever \<open>generateSFrameHeader\<close> returns a header, parsing its bytes recovers the key id
  and the counter (a byte more than the minimal length only adds a leading zero). It
  returns one for every counter up to \<open>2 ^ 64 - 94208\<close>.
\<close>

lemma header_roundtrip_generated:
  assumes "0 \<le> kid" and "kid \<le> SFRAME_HEADER_MAXKEYID" and "ctr < 2 ^ 64" and "is_double ctr"
    and "generateSFrameHeader kid ctr = Inr h"
  shows "keyId (parseSFrameHeader (data h)) = Some (nat kid)
         \<and> counter (parseSFrameHeader (data h)) = Some ctr"
proof -
  have "parseSFrameHeader (data h @ []) = h"
    by (rule parse_generate[OF assms])
  moreover have "keyId h = Some (nat kid)" "counter h = Some ctr"
    using generateSFrameHeader_eq[OF assms(1,2) generateSFrameHeader_Inr[OF assms(5)]] assms(5)
    by auto
  ultimately show ?thesis by simp
qed

lemma generate_returns:
  assumes "0 \<le> kid" and "kid \<le> SFRAME_HEADER_MAXKEYID" and "ctr \<le> 2 ^ 64 - 94208"
  shows "\<exists>h. generateSFrameHeader kid ctr = Inr h"
proof -
  have "calculateKLENorLEN ctr \<le> 7"
    using KLEN_less_8[OF _ assms(3)] by (cases "ctr = 0") simp_all
  then show ?thesis using generateSFrameHeader_eq[OF assms(1,2)] by simp
qed

text \<open>
  Claim C2. The claim: for every key id \<open>kid\<close> with \<open>0 \<le> kid \<le> MaxKeyId\<close> and every
  counter \<open>ctr\<close> with \<open>0 \<le> ctr < 2\<^sup>6\<^sup>4\<close>, parsing the bytes that
  \<open>generateSFrameHeader kid ctr\<close> produces recovers \<open>kid\<close> and \<open>ctr\<close>. The code does not
  produce a header for every such counter. The counter \<open>2\<^sup>6\<^sup>4 - 2048\<close> is a double below
  \<open>2\<^sup>6\<^sup>4\<close> and fits in 8 bytes, but the quotient of the two rounded logarithms is \<open>8\<close>,
  so \<open>ctrLEN > 7\<close> holds and \<open>generateSFrameHeader\<close> throws.
\<close>

theorem generate_throws_below_2_64:
  "(2 ^ 64 - 2048 :: nat) < 2 ^ 64
   \<and> is_double (2 ^ 64 - 2048)
   \<and> calculateKLENorLEN (2 ^ 64 - 2048) = 8
   \<and> generateSFrameHeader 0 (2 ^ 64 - 2048)
       = Inl (JsError ''The length of the CTR fields in bytes must be between 1-8'')"
proof -
  have k: "calculateKLENorLEN (2 ^ 64 - 2048) = 8" by (rule KLEN_8) simp_all
  then have k7: "7 < calculateKLENorLEN (2 ^ 64 - 2048)" by simp
  have "floorlog 2 (2 ^ 64 - 2048) = 64"
  proof -
    have "floorlog 2 (2 ^ 64 - 2048) \<le> 64" by (simp add: floorlog_le_iff)
    moreover have "Suc 63 \<le> floorlog 2 (2 ^ 64 - 2048)" by (rule floorlog_ge_SucI) simp_all
    ultimately show ?thesis by simp
  qed
  then have d: "is_double (2 ^ 64 - 2048)"
    unfolding is_double_iff by (intro disjI2) simp
  have m: "0 \<le> SFRAME_HEADER_MAXKEYID" by (simp add: SFRAME_HEADER_MAXKEYID_def)
  show ?thesis
    using k d generateSFrameHeader_too_long[OF _ m k7] by simp
qed

text \<open>
  Claim C6. The claim: \<open>generateSFrameHeader\<close> emits the metadata byte
  \<open>((LEN & 7) << 4) | (X << 3) | (K & 7)\<close>, then the extended key id and the counter
  big-endian, each in its minimal byte length \<open>max(1, \<lceil>log\<^sub>2(v + 1) / 8\<rceil>)\<close>. The code does
  not always use the minimal length. The value \<open>2\<^sup>4\<^sup>8 - 1\<close> fits in 6 bytes, but the quotient
  of the two rounded logarithms is \<open>6\<close>, so the length field is \<open>6\<close> and 7 bytes are written,
  the first of them zero: as a counter, and as an extended key id.
\<close>

theorem generate_length_not_minimal:
  "minimal_byte_length (2 ^ 48 - 1) = 6
   \<and> generateSFrameHeader 0 (2 ^ 48 - 1)
       = Inr \<lparr>data = [0x60, 0x00, 0xff, 0xff, 0xff, 0xff, 0xff, 0xff],
              keyId = Some 0, counter = Some (2 ^ 48 - 1),
              rawCounter = [0x00, 0xff, 0xff, 0xff, 0xff, 0xff, 0xff]\<rparr>
   \<and> generateSFrameHeader (2 ^ 48 - 1) 0
       = Inr \<lparr>data = [0x0e, 0x00, 0xff, 0xff, 0xff, 0xff, 0xff, 0xff, 0x00],
              keyId = Some (2 ^ 48 - 1), counter = Some 0, rawCounter = [0x00]\<rparr>"
proof -
  have k: "calculateKLENorLEN (2 ^ 48 - 1) = 6" by (rule KLEN_6) simp_all
  have k': "calculateKLENorLEN 281474976710655 = 6" using k by simp
  have m: "minimal_byte_length (2 ^ 48 - 1) = 6"
    using minimal_byte_length_power[of 6] by simp
  have x: "(2 ^ 48 - 1 :: int) \<le> SFRAME_HEADER_MAXKEYID" "0 \<le> SFRAME_HEADER_MAXKEYID"
    by (simp_all add: SFRAME_HEADER_MAXKEYID_def)
  have c: "generateSFrameHeader 0 (2 ^ 48 - 1)
       = Inr \<lparr>data = [0x60, 0x00, 0xff, 0xff, 0xff, 0xff, 0xff, 0xff],
              keyId = Some 0, counter = Some (2 ^ 48 - 1),
              rawCounter = [0x00, 0xff, 0xff, 0xff, 0xff, 0xff, 0xff]\<rparr>"
    using generateSFrameHeader_eq[of 0 "2 ^ 48 - 1"] x(2)
    by (simp add: k' metadata_byte_def)
  have i: "generateSFrameHeader (2 ^ 48 - 1) 0
       = Inr \<lparr>data = [0x0e, 0x00, 0xff, 0xff, 0xff, 0xff, 0xff, 0xff, 0x00],
              keyId = Some (2 ^ 48 - 1), counter = Some 0, rawCounter = [0x00]\<rparr>"
    using generateSFrameHeader_eq[of "2 ^ 48 - 1" 0] x(1)
    by (simp add: k' metadata_byte_def)
  show ?thesis using m c i by simp
qed

section \<open>The IV: claim\<close>

text \<open>
  Claim C7. For every raw counter of 1 to 8 bytes and every 12-byte salt, \<open>generateIV\<close>
  returns the 12-byte IV obtained by right-aligning the counter bytes in a zero array and
  XORing every byte with the salt byte at the same index. The witness holds the two
  vectors of the claim, for salt \<open>42d662fbad5cd81eb3aad79a\<close>.
\<close>

theorem generateIV_right_aligned_xor:
  assumes "1 \<le> length c" and "length c \<le> 8" and "length salt = 12"
  shows "generateIV c salt = Inr (map2 (XOR) (replicate (12 - length c) 0 @ c) salt)
         \<and> length (map2 (XOR) (replicate (12 - length c) 0 @ c) salt) = 12"
  using assms generateIV_eq[of c salt] by simp

theorem generateIV_right_aligned_xor_witness:
  "1 \<le> length [0xaa :: u8] \<and> length [0xaa :: u8] \<le> 8
   \<and> 1 \<le> length [0xff, 0xff, 0xff, 0xff, 0xff, 0xff, 0xff :: u8]
   \<and> length [0xff, 0xff, 0xff, 0xff, 0xff, 0xff, 0xff :: u8] \<le> 8
   \<and> length [0x42, 0xd6, 0x62, 0xfb, 0xad, 0x5c, 0xd8, 0x1e, 0xb3, 0xaa, 0xd7, 0x9a :: u8] = 12
   \<and> generateIV [0xaa] [0x42, 0xd6, 0x62, 0xfb, 0xad, 0x5c, 0xd8, 0x1e, 0xb3, 0xaa, 0xd7, 0x9a]
       = Inr [0x42, 0xd6, 0x62, 0xfb, 0xad, 0x5c, 0xd8, 0x1e, 0xb3, 0xaa, 0xd7, 0x30]
   \<and> generateIV [0xff, 0xff, 0xff, 0xff, 0xff, 0xff, 0xff]
         [0x42, 0xd6, 0x62, 0xfb, 0xad, 0x5c, 0xd8, 0x1e, 0xb3, 0xaa, 0xd7, 0x9a]
       = Inr [0x42, 0xd6, 0x62, 0xfb, 0xad, 0xa3, 0x27, 0xe1, 0x4c, 0x55, 0x28, 0x65]"
  using generateIV_right_aligned_xor[of "[0xaa]"
          "[0x42, 0xd6, 0x62, 0xfb, 0xad, 0x5c, 0xd8, 0x1e, 0xb3, 0xaa, 0xd7, 0x9a]"]
        generateIV_right_aligned_xor[of "[0xff, 0xff, 0xff, 0xff, 0xff, 0xff, 0xff]"
          "[0x42, 0xd6, 0x62, 0xfb, 0xad, 0x5c, 0xd8, 0x1e, 0xb3, 0xaa, 0xd7, 0x9a]"]
  by (simp add: numeral_eq_Suc)

section \<open>The parser on arbitrary input\<close>

lemma js_add_None [simp]: "js_add a None = None"
  by (simp add: js_add_def split: option.splits)

lemma read_number_short:
  assumes "length view < start + len" "0 < len"
  shows "read_number view start len = None"
proof -
  obtain n where n: "len = Suc n" using assms(2) by (cases len) auto
  have "view_at view (start + n) = None" using assms(1) n by (simp add: view_at_def)
  then show ?thesis
    unfolding read_number_def n by (simp add: to_jsnum_def)
qed

lemma read_number_tail:
  assumes "1 \<le> start"
  shows "read_number (a # bs) start len = read_number (b # bs) start len"
  unfolding read_number_def
  by (rule fold_cong) (use assms in \<open>auto simp add: view_at_def nth_Cons'\<close>)

lemma reserved_bit:
  fixes m :: u8
  shows "(m OR 0x80) AND 0x07 = m AND 0x07"
    and "((m OR 0x80) AND 0x08 \<noteq> 0) = (m AND 0x08 \<noteq> 0)"
    and "drop_bit 4 (m OR 0x80) AND 0x07 = drop_bit 4 m AND 0x07"
proof -
  have p: "(0x80 :: u8) = push_bit 7 1" by simp
  show "(m OR 0x80) AND 0x07 = m AND 0x07"
    unfolding and7 p by (rule bit_word_eqI) (auto simp add: bit_simps)
  show "((m OR 0x80) AND 0x08 \<noteq> 0) = (m AND 0x08 \<noteq> 0)"
    unfolding and8 p by (auto simp add: bit_simps)
  show "drop_bit 4 (m OR 0x80) AND 0x07 = drop_bit 4 m AND 0x07"
    unfolding and7 p by (rule bit_word_eqI) (auto simp add: bit_simps)
qed

lemma subarray_from_drop: "subarray_from xs (int n) = drop n xs"
  by (simp add: subarray_from_def subarray_nat)

lemma parse_data: "data (parseSFrameHeader (m # bs)) = take (announced_length m) (m # bs)"
  unfolding parseSFrameHeader_def Let_def subarray_nat subarray_0
  by (simp add: to_int32_view_at_0 lengthAdjustment_def announced_length_def)

lemma parse_counter_short:
  assumes "length (m # bs) < announced_length m"
  shows "counter (parseSFrameHeader (m # bs)) = None"
proof -
  have "counter (parseSFrameHeader (m # bs))
        = read_number (m # bs) (announced_length m - (unat (drop_bit 4 m AND 0x07) + 1))
            (unat (drop_bit 4 m AND 0x07) + 1)"
    unfolding parseSFrameHeader_def Let_def subarray_nat subarray_0
    by (simp add: to_int32_view_at_0 lengthAdjustment_def announced_length_def)
  also have "\<dots> = None"
    by (rule read_number_short) (use assms in \<open>auto simp add: announced_length_def\<close>)
  finally show ?thesis .
qed

lemma parse_reserved:
  "keyId (parseSFrameHeader ((m OR 0x80) # bs)) = keyId (parseSFrameHeader (m # bs))"
  "counter (parseSFrameHeader ((m OR 0x80) # bs)) = counter (parseSFrameHeader (m # bs))"
  "rawCounter (parseSFrameHeader ((m OR 0x80) # bs)) = rawCounter (parseSFrameHeader (m # bs))"
  unfolding parseSFrameHeader_def Let_def to_int32_view_at_0 reserved_bit subarray_nat
  using read_number_tail[of _ "m OR 0x80" bs _ m]
  by (simp_all add: lengthAdjustment_def)

lemma parse_empty:
  "parseSFrameHeader [] = \<lparr>data = [], keyId = Some 0, counter = None, rawCounter = []\<rparr>"
  by (simp add: parseSFrameHeader_def Let_def view_at_def to_int32_def lengthAdjustment_def
      read_number_def to_jsnum_def subarray_def rel_index_def)

lemma parse_over_max:
  "keyId (parseSFrameHeader [0x0e, 0x20, 0, 0, 0, 0, 0, 0, 0]) = Some (2 ^ 53)"
proof -
  have m: "metadata_byte 0 True 6 = 0x0e" by (simp add: metadata_byte_def)
  have b: "big_endian 7 (2 ^ 53) = [0x20, 0, 0, 0, 0, 0, 0]" by simp
  have r: "read_bytes (big_endian 7 (2 ^ 53)) = Some (2 ^ 53)"
    by (rule read_bytes_be) (simp_all add: is_double_small)
  have "parseSFrameHeader (metadata_byte 0 True 6 # [0x20, 0, 0, 0, 0, 0, 0] @ [0] @ []) =
     \<lparr>data = metadata_byte 0 True 6 # [0x20, 0, 0, 0, 0, 0, 0] @ [0],
      keyId = (if True then read_bytes [0x20, 0, 0, 0, 0, 0, 0] else Some 6),
      counter = read_bytes [0],
      rawCounter = [0]\<rparr>"
    by (rule parseSFrameHeader_wellformed) simp_all
  then show ?thesis using r unfolding b m by simp
qed

text \<open>
  Claim C10. \<open>parseSFrameHeader\<close> returns a header record on every byte sequence and never
  raises: on the empty sequence the counter is \<^verbatim>\<open>NaN\<close>; on a buffer shorter than the
  length its metadata byte announces the header data is the whole buffer and the counter
  is \<^verbatim>\<open>NaN\<close>; the reserved bit does not change the key id, the counter or the raw
  counter; a key id above the maximum is returned as it is read; and
  \<open>Context.readKeyId\<close> is the key id of the header parsed after the skip region.
\<close>

theorem parseSFrameHeader_total:
  "parseSFrameHeader [] = \<lparr>data = [], keyId = Some 0, counter = None, rawCounter = []\<rparr>
   \<and> data (parseSFrameHeader (m # bs)) = take (announced_length m) (m # bs)
   \<and> (length (m # bs) < announced_length m \<longrightarrow> counter (parseSFrameHeader (m # bs)) = None)
   \<and> keyId (parseSFrameHeader ((m OR 0x80) # bs)) = keyId (parseSFrameHeader (m # bs))
   \<and> counter (parseSFrameHeader ((m OR 0x80) # bs)) = counter (parseSFrameHeader (m # bs))
   \<and> rawCounter (parseSFrameHeader ((m OR 0x80) # bs)) = rawCounter (parseSFrameHeader (m # bs))
   \<and> keyId (parseSFrameHeader [0x0e, 0x20, 0, 0, 0, 0, 0, 0, 0]) = Some (2 ^ 53)
   \<and> SFRAME_HEADER_MAXKEYID < 2 ^ 53
   \<and> Context_readKeyId this frame
       = keyId (parseSFrameHeader (drop (headerLength frame) (frameData frame)))"
  using parse_empty parse_data[of m bs] parse_counter_short[of m bs] parse_reserved[of m bs]
    parse_over_max
  by (simp add: Context_readKeyId_def subarray_from_drop SFRAME_HEADER_MAXKEYID_def)

theorem parseSFrameHeader_total_witness:
  "length [0x30, 0xff :: u8] < announced_length 0x30
   \<and> counter (parseSFrameHeader [0x30, 0xff]) = None
   \<and> data (parseSFrameHeader [0x30, 0xff]) = [0x30, 0xff]
   \<and> Context_readKeyId new_Context \<lparr>frameData = [0xca, 0x30, 0xff], headerLength = 1\<rparr> = Some 0"
proof -
  have a: "announced_length 0x30 = 5" by (simp add: announced_length_def)
  have k: "keyId (parseSFrameHeader [0x30, 0xff]) = Some 0"
    by (simp add: parseSFrameHeader_def Let_def to_int32_view_at_0)
  show ?thesis
    using parseSFrameHeader_total[of "0x30" "[0xff]" new_Context
            "\<lparr>frameData = [0xca, 0x30, 0xff], headerLength = 1\<rparr>"]
    by (simp add: a k)
qed

section \<open>Lemmas about frames\<close>

lemma ta_set_append:
  "length a = off \<Longrightarrow> length src = length b \<Longrightarrow> ta_set (a @ b @ c) src off = Inr (a @ src @ c)"
  by (simp add: ta_set_def)

lemma ta_set_prefix:
  "length src \<le> length t \<Longrightarrow> ta_set t src 0 = Inr (src @ drop (length src) t)"
  by (simp add: ta_set_def)

lemma subarray_middle:
  "length a = i \<Longrightarrow> subarray (a @ b @ c) (int i) (int (i + length b)) = b"
  unfolding subarray_nat by simp

lemma SFrameCrypto_encrypt_eq:
  assumes "ciphertextCore cr k h P = Some c"
  shows "SFrameCrypto_encrypt cr k h P s
         = Inr (replicate s 0 @ data h @ c @ frame_tag cr k (data h @ c),
                subarray (subtle_sign cr (authKey (cipherSuite k)) (data h @ c)) 0
                  (int (nT (config (cipherSuite k)))))"
proof -
  let ?n = "nT (config (cipherSuite k))"
  let ?code = "subtle_sign cr (authKey (cipherSuite k)) (data h @ c)"
  obtain iv where iv: "generateIV (rawCounter h) (saltKey (cipherSuite k)) = Inr iv"
    and enc: "subtle_encrypt cr (algorithm (config (cipherSuite k))) iv
                (nK (config (cipherSuite k)) * 8) (data h) (encryptionKey (cipherSuite k)) P = Some c"
    using assms by (auto simp add: ciphertextCore_def split: sum.splits)
  have z: "replicate (length (data h) + length c + ?n + s) (0::u8)
           = replicate s 0 @ replicate (length (data h)) 0 @ (replicate (length c) 0 @ replicate ?n 0)"
    by (simp add: replicate_add[symmetric] add.commute add.left_commute)
  have s1: "ta_set (replicate (length (data h) + length c + ?n + s) (0::u8)) (data h) s
            = Inr (replicate s 0 @ data h @ (replicate (length c) 0 @ replicate ?n 0))"
    unfolding z by (rule ta_set_append) simp_all
  have s2: "ta_set (replicate s 0 @ data h @ (replicate (length c) 0 @ replicate ?n 0)) c
              (s + length (data h))
            = Inr (replicate s 0 @ data h @ c @ replicate ?n 0)"
    using ta_set_append[of "replicate s 0 @ data h" "s + length (data h)" c
            "replicate (length c) 0" "replicate ?n 0"] by simp
  have sub: "subarray (replicate s 0 @ data h @ c @ replicate ?n 0) (int s)
               (int (s + length (data h) + length c)) = data h @ c"
    using subarray_middle[of "replicate s (0::u8)" s "data h @ c" "replicate ?n 0"]
    by (simp add: add.assoc)
  have tl: "length (take ?n ?code) \<le> ?n" by simp
  have s3: "ta_set (replicate s 0 @ data h @ c @ replicate ?n 0) (subarray ?code 0 (int ?n))
              (s + length c + length (data h))
            = Inr (replicate s 0 @ data h @ c @ frame_tag cr k (data h @ c))"
    by (simp add: ta_set_def frame_tag_def Let_def min_def)
  show ?thesis
    by (simp only: SFrameCrypto_encrypt_def Let_def iv enc sum.case option.case s1 s2 sub s3)
qed


lemma SFrameCrypto_encrypt_None:
  assumes "ciphertextCore cr k h P = None"
  shows "isl (SFrameCrypto_encrypt cr k h P s)"
  using assms
  by (auto simp add: ciphertextCore_def SFrameCrypto_encrypt_def split: sum.splits)

lemma Sender_encrypt_eq:
  assumes "senderKey sdr = Some k"
    and "generateSFrameHeader (senderId sdr) (senderCounter sdr) = Inr h"
    and "ciphertextCore cr k h P = Some c"
  shows "Sender_encrypt cr sdr P s
         = (Inr (take s P @ replicate (s - length P) 0 @ data h @ c @ frame_tag cr k (data h @ c)),
            sdr\<lparr>senderCounter := js_round (senderCounter sdr + 1)\<rparr>)"
proof -
  let ?rest = "data h @ c @ frame_tag cr k (data h @ c)"
  have "ta_set (replicate s 0 @ ?rest) (take s P) 0
        = Inr (take s P @ replicate (s - length P) 0 @ ?rest)"
    by (simp add: ta_set_def min_def)
  then show ?thesis
    unfolding Sender_encrypt_def Let_def
    by (simp add: assms(1,2) SFrameCrypto_encrypt_eq[OF assms(3)])
qed

lemma Sender_encrypt_InrD:
  assumes "Sender_encrypt cr sdr P s = (Inr frame, sdr')"
  shows "\<exists>k h c. senderKey sdr = Some k
           \<and> generateSFrameHeader (senderId sdr) (senderCounter sdr) = Inr h
           \<and> ciphertextCore cr k h P = Some c"
proof (cases "senderKey sdr")
  case None
  then show ?thesis using assms by (simp add: Sender_encrypt_def)
next
  case (Some k)
  show ?thesis
  proof (cases "generateSFrameHeader (senderId sdr) (senderCounter sdr)")
    case (Inl e)
    then show ?thesis using assms Some by (simp add: Sender_encrypt_def Let_def)
  next
    case (Inr h)
    show ?thesis
    proof (cases "ciphertextCore cr k h P")
      case None
      then have "isl (SFrameCrypto_encrypt cr k h P s)" by (rule SFrameCrypto_encrypt_None)
      then show ?thesis
        using assms Some Inr by (auto simp add: Sender_encrypt_def Let_def isl_def)
    next
      case (Some c)
      then show ?thesis using \<open>senderKey sdr = Some k\<close> Inr by simp
    qed
  qed
qed

lemma tags_equal_iff:
  "tags_equal a b n \<longleftrightarrow> (\<forall>i<n. view_at a i = view_at b i)"
proof -
  have "fold (\<lambda>i authenticated. authenticated \<and> view_at a i = view_at b i) [0..<n] acc
        \<longleftrightarrow> acc \<and> (\<forall>i<n. view_at a i = view_at b i)" for acc
    by (induction n arbitrary: acc) (auto simp add: less_Suc_eq)
  then show ?thesis by (simp add: tags_equal_def)
qed

lemma tags_equal_take:
  "n \<le> length code \<Longrightarrow> tags_equal (take n code) code n"
  by (simp add: tags_equal_iff view_at_def)

lemma frame_tag_take:
  assumes "nT (config (cipherSuite k)) \<le> length (subtle_sign cr (authKey (cipherSuite k)) m)"
  shows "frame_tag cr k m = take (nT (config (cipherSuite k))) (subtle_sign cr (authKey (cipherSuite k)) m)"
    and "length (frame_tag cr k m) = nT (config (cipherSuite k))"
  using assms by (simp_all add: frame_tag_def Let_def)

lemma SFrameCrypto_decrypt_frame:
  assumes iv: "generateIV (rawCounter h) (saltKey (cipherSuite k)) = Inr iv"
    and dec: "subtle_decrypt cr (algorithm (config (cipherSuite k))) iv
                (nK (config (cipherSuite k)) * 8) (data h) (encryptionKey (cipherSuite k)) c = Some P"
    and tag: "nT (config (cipherSuite k)) \<le> length (subtle_sign cr (authKey (cipherSuite k)) (data h @ c))"
    and pre: "length pre = s"
  shows "SFrameCrypto_decrypt cr k h (pre @ data h @ c @ frame_tag cr k (data h @ c)) s
         = Inr (P, frame_tag cr k (data h @ c))"
proof -
  let ?n = "nT (config (cipherSuite k))"
  let ?code = "subtle_sign cr (authKey (cipherSuite k)) (data h @ c)"
  let ?tag = "frame_tag cr k (data h @ c)"
  let ?frame = "pre @ data h @ c @ ?tag"
  note ft = frame_tag_take[OF tag]
  have len: "length ?frame = s + length (data h) + length c + ?n"
    using pre ft(2) by simp
  have A: "subarray ?frame (int s + (int (length ?frame) - int s) - int ?n)
             (int s + (int (length ?frame) - int s)) = ?tag"
    using pre ft(2) by (simp add: subarray_nonneg)
  have Pp: "subarray ?frame (int s + int (length (data h)))
              (int s + (int (length ?frame) - int s) - int ?n) = c"
    using pre ft(2) by (simp add: subarray_nonneg nat_add_distrib)
  have M: "subarray ?frame (int s) (int s + int (length (data h)) + int (length c)) = data h @ c"
    using pre by (simp add: subarray_nonneg nat_add_distrib)
  have eq: "tags_equal ?tag ?code ?n"
    unfolding ft(1) by (rule tags_equal_take[OF tag])
  show ?thesis
    by (simp only: SFrameCrypto_decrypt_def Let_def iv sum.case A Pp M eq dec option.case
        not_True_eq_False if_False)
qed

lemma createSFrameCrypto_Inr: "\<exists>k. createSFrameCrypto cr raw V = Inr k"
  by (cases V) (simp_all add: createSFrameCrypto_def createCipherSuite_def getCipherSuiteConfig_def)

lemma createSFrameCrypto_props:
  assumes "webcrypto_ok cr" and "createSFrameCrypto cr raw V = Inr k"
  shows "length (saltKey (cipherSuite k)) = 12"
    and "nT (config (cipherSuite k)) \<le> 16"
    and "getCipherSuiteConfig V = Some (config (cipherSuite k))"
proof -
  have h: "\<And>a b c d n. length (hkdf cr a b c d n) = n div 8"
    using assms(1) by (simp add: webcrypto_ok_def)
  show "length (saltKey (cipherSuite k)) = 12"
    using assms(2) h
    by (cases V) (auto simp add: createSFrameCrypto_def createCipherSuite_def
        getCipherSuiteConfig_def Let_def)
  show "nT (config (cipherSuite k)) \<le> 16"
    using assms(2)
    by (cases V) (auto simp add: createSFrameCrypto_def createCipherSuite_def
        getCipherSuiteConfig_def Let_def)
  show "getCipherSuiteConfig V = Some (config (cipherSuite k))"
    using assms(2)
    by (cases V) (auto simp add: createSFrameCrypto_def createCipherSuite_def
        getCipherSuiteConfig_def Let_def)
qed

lemma generate_rawCounter_length:
  assumes "0 \<le> kid" "kid \<le> SFRAME_HEADER_MAXKEYID" "ctr < 2 ^ 64"
    and "generateSFrameHeader kid ctr = Inr h"
  shows "length (rawCounter h) \<le> 8"
proof -
  have "calculateKLENorLEN ctr \<le> 7" using assms(4) by (rule generateSFrameHeader_Inr)
  then show ?thesis using generateSFrameHeader_eq[OF assms(1,2)] assms(4) by auto
qed

lemma ciphertextCore_ok:
  assumes "webcrypto_ok cr" and "length (rawCounter h) \<le> length (saltKey (cipherSuite k))"
  shows "\<exists>iv c. generateIV (rawCounter h) (saltKey (cipherSuite k)) = Inr iv
           \<and> ciphertextCore cr k h P = Some c
           \<and> subtle_decrypt cr (algorithm (config (cipherSuite k))) iv
                (nK (config (cipherSuite k)) * 8) (data h) (encryptionKey (cipherSuite k)) c = Some P"
proof -
  obtain iv where iv: "generateIV (rawCounter h) (saltKey (cipherSuite k)) = Inr iv"
    using generateIV_eq[OF assms(2)] by simp
  obtain c where "subtle_encrypt cr (algorithm (config (cipherSuite k))) iv
                (nK (config (cipherSuite k)) * 8) (data h) (encryptionKey (cipherSuite k)) P = Some c"
     "subtle_decrypt cr (algorithm (config (cipherSuite k))) iv
                (nK (config (cipherSuite k)) * 8) (data h) (encryptionKey (cipherSuite k)) c = Some P"
    using assms(1) unfolding webcrypto_ok_def by meson
  then show ?thesis using iv by (simp add: ciphertextCore_def)
qed

lemma try_keys_older:
  assumes "\<forall>k' \<in> set older. isl (SFrameCrypto_decrypt cr k' h f s)"
  shows "try_keys cr (older @ ks) h f s = try_keys cr ks h f s"
  using assms by (induction older) (auto simp add: isl_def)

lemma checkForReplayAttack_eq:
  "checkForReplayAttack rcv h =
     (if \<exists>c m. counter h = Some c \<and> maxReceivedCounter rcv = Some m \<and> int c < m \<and> m - int c > 128
      then Inl (SFrameError ReplayAttackError) else Inr ())"
  by (auto simp add: checkForReplayAttack_def ReplayWindow_def split: option.splits)

lemma Receiver_decrypt_ok:
  assumes "checkForReplayAttack rcv h = Inr ()"
    and "try_keys cr (keyring rcv) h frame s = Some (P, tag)"
    and "s \<le> length P" and "s \<le> length frame" and "take s frame = take s P"
  shows "Receiver_decrypt cr rcv h frame s
         = (Inr P, rcv\<lparr>maxReceivedCounter :=
                          js_max (map_option int (counter h)) (maxReceivedCounter rcv)\<rparr>)"
proof -
  have "ta_set P (take s frame) 0 = Inr P"
    using assms(3,4) unfolding assms(5) by (simp add: ta_set_def min_def)
  then show ?thesis
    unfolding Receiver_decrypt_def using assms(1,2) by (auto simp add: subarray_0)
qed

lemma valid_frame_decrypt:
  assumes ok: "webcrypto_ok cr"
    and key: "createSFrameCrypto cr raw V = Inr k"
    and kid: "0 \<le> kid" "kid \<le> SFRAME_HEADER_MAXKEYID"
    and ctr: "ctr \<le> 2 ^ 53"
    and hdr: "generateSFrameHeader kid ctr = Inr h"
    and c: "ciphertextCore cr k h P = Some c"
    and s: "s \<le> length P"
    and ring: "keyring rcv = older @ k # newer"
    and older: "\<forall>k' \<in> set older.
                  key_rejects cr k' (take s P @ data h @ c @ frame_tag cr k (data h @ c)) s"
  shows "decrypt_frame cr rcv (take s P @ data h @ c @ frame_tag cr k (data h @ c)) s =
     (if \<exists>m. maxReceivedCounter rcv = Some m \<and> int ctr < m \<and> m - int ctr > 128
      then (Inl (SFrameError ReplayAttackError), rcv)
      else (Inr P, rcv\<lparr>maxReceivedCounter := js_max (Some (int ctr)) (maxReceivedCounter rcv)\<rparr>))"
proof -
  let ?tag = "frame_tag cr k (data h @ c)"
  let ?frame = "take s P @ data h @ c @ ?tag"
  have c64: "ctr < 2 ^ 64" using ctr by (rule le_less_trans) simp
  have dbl: "is_double ctr" using ctr by (rule is_double_small)
  have ls: "length (take s P) = s" using s by simp
  have "subarray_from ?frame (int s) = data h @ (c @ ?tag)"
    using ls by (simp add: subarray_from_drop)
  then have parse: "parseSFrameHeader (subarray_from ?frame (int s)) = h"
    using parse_generate[OF kid c64 dbl hdr] by simp
  have hc: "counter h = Some ctr"
    using generateSFrameHeader_eq[OF kid generateSFrameHeader_Inr[OF hdr]] hdr by auto
  have rl: "length (rawCounter h) \<le> length (saltKey (cipherSuite k))"
    using generate_rawCounter_length[OF kid c64 hdr] createSFrameCrypto_props(1)[OF ok key] by simp
  obtain iv c' where iv: "generateIV (rawCounter h) (saltKey (cipherSuite k)) = Inr iv"
    and c': "ciphertextCore cr k h P = Some c'"
    and dec: "subtle_decrypt cr (algorithm (config (cipherSuite k))) iv
                (nK (config (cipherSuite k)) * 8) (data h) (encryptionKey (cipherSuite k)) c' = Some P"
    using ciphertextCore_ok[OF ok rl, of P] by blast
  have cc: "c' = c" using c c' by simp
  have "length (subtle_sign cr (authKey (cipherSuite k)) (data h @ c)) = 32"
    using ok by (simp add: webcrypto_ok_def)
  then have tag: "nT (config (cipherSuite k)) \<le> length (subtle_sign cr (authKey (cipherSuite k)) (data h @ c))"
    using createSFrameCrypto_props(2)[OF ok key] by simp
  have d: "SFrameCrypto_decrypt cr k h ?frame s = Inr (P, ?tag)"
    using SFrameCrypto_decrypt_frame[OF iv dec[unfolded cc] tag ls] .
  have rej: "\<forall>k' \<in> set older. isl (SFrameCrypto_decrypt cr k' h ?frame s)"
    using older unfolding key_rejects_def parse .
  have tk: "try_keys cr (keyring rcv) h ?frame s = Some (P, ?tag)"
    unfolding ring try_keys_older[OF rej] by (simp add: d)
  show ?thesis
  proof (cases "\<exists>m. maxReceivedCounter rcv = Some m \<and> int ctr < m \<and> m - int ctr > 128")
    case True
    then have "checkForReplayAttack rcv h = Inl (SFrameError ReplayAttackError)"
      by (simp add: checkForReplayAttack_eq hc)
    then show ?thesis using True
      by (simp add: decrypt_frame_def parse Receiver_decrypt_def)
  next
    case False
    then have chk: "checkForReplayAttack rcv h = Inr ()"
      by (simp add: checkForReplayAttack_eq hc)
    have "Receiver_decrypt cr rcv h ?frame s
         = (Inr P, rcv\<lparr>maxReceivedCounter :=
                          js_max (map_option int (counter h)) (maxReceivedCounter rcv)\<rparr>)"
      by (rule Receiver_decrypt_ok[OF chk tk s]) (use s in simp_all)
    then show ?thesis using False by (simp add: decrypt_frame_def parse hc)
  qed
qed

lemma Sender_encrypt_ok:
  assumes ok: "webcrypto_ok cr"
    and key: "createSFrameCrypto cr raw V = Inr k"
    and sk: "senderKey sdr = Some k"
    and kid: "0 \<le> senderId sdr" "senderId sdr \<le> SFRAME_HEADER_MAXKEYID"
    and ctr: "senderCounter sdr \<le> 2 ^ 53"
  shows "\<exists>h c. generateSFrameHeader (senderId sdr) (senderCounter sdr) = Inr h
           \<and> ciphertextCore cr k h P = Some c
           \<and> Sender_encrypt cr sdr P s
               = (Inr (take s P @ replicate (s - length P) 0 @ data h @ c @ frame_tag cr k (data h @ c)),
                  sdr\<lparr>senderCounter := js_round (senderCounter sdr + 1)\<rparr>)"
proof -
  have c64: "senderCounter sdr < 2 ^ 64" using ctr by (rule le_less_trans) simp
  obtain h where h: "generateSFrameHeader (senderId sdr) (senderCounter sdr) = Inr h"
    using generateSFrameHeader_eq[OF kid KLEN_le_7[OF ctr]] by simp
  have rl: "length (rawCounter h) \<le> length (saltKey (cipherSuite k))"
    using generate_rawCounter_length[OF kid c64 h] createSFrameCrypto_props(1)[OF ok key] by simp
  obtain c where c: "ciphertextCore cr k h P = Some c"
    using ciphertextCore_ok[OF ok rl, of P] by blast
  show ?thesis using h c Sender_encrypt_eq[OF sk h c] by blast
qed

section \<open>The concrete instance evaluated\<close>

lemma xor_xor_cancel: "(b XOR p) XOR p = (b :: u8)"
  by (simp add: xor.assoc)

lemma webcrypto_ok_toy: "webcrypto_ok toy"
proof -
  have "toy_decrypt name iv len ad key (the (toy_encrypt name iv len ad key p)) = Some p"
    for name iv len ad key p
    by (simp add: toy_decrypt_def toy_encrypt_def toy_tag_def Let_def comp_def xor_xor_cancel)
  then show ?thesis
    by (simp add: webcrypto_ok_def toy_def toy_sign_def toy_hkdf_def toy_encrypt_def)
qed

lemma toy_key_eq:
  "toy_key = \<lparr>cipherSuite =
      \<lparr>config = \<lparr>algorithm = ''AES-GCM'', keyAlgorithm = ''HKDF'', hashAlgorithm = ''SHA-256'',
                 nH = 32, nK = 16, nN = 12, nT = 8\<rparr>,
       baseKey = toy_rawKey,
       encryptionKey = replicate 16 200,
       saltKey = replicate 12 51,
       authKey = replicate 16 49\<rparr>\<rparr>"
  by (simp add: toy_key_def createSFrameCrypto_def createCipherSuite_def getCipherSuiteConfig_def
      Let_def toy_def toy_hkdf_def encode_def toy_rawKey_def)

lemma toy_otherKey_eq:
  "toy_otherKey = \<lparr>cipherSuite =
      \<lparr>config = \<lparr>algorithm = ''AES-GCM'', keyAlgorithm = ''HKDF'', hashAlgorithm = ''SHA-256'',
                 nH = 32, nK = 16, nN = 12, nT = 8\<rparr>,
       baseKey = toy_otherRawKey,
       encryptionKey = replicate 16 210,
       saltKey = replicate 12 61,
       authKey = replicate 16 59\<rparr>\<rparr>"
  by (simp add: toy_otherKey_def createSFrameCrypto_def createCipherSuite_def getCipherSuiteConfig_def
      Let_def toy_def toy_hkdf_def encode_def toy_otherRawKey_def)

lemma createSFrameCrypto_toy_key:
  "createSFrameCrypto toy toy_rawKey AES_GCM_128_SHA256 = Inr toy_key"
  using createSFrameCrypto_Inr[of toy toy_rawKey AES_GCM_128_SHA256]
  by (auto simp add: toy_key_def)

lemma generate_0_0:
  "generateSFrameHeader 0 0 = Inr \<lparr>data = [0, 0], keyId = Some 0, counter = Some 0, rawCounter = [0]\<rparr>"
proof -
  have k: "calculateKLENorLEN 0 = 0" by (simp add: calculateKLENorLEN_def)
  show ?thesis
    using generateSFrameHeader_eq[of 0 0]
    by (simp add: k SFRAME_HEADER_MAXKEYID_def metadata_byte_def)
qed

lemma replicate_numeral: "replicate (numeral k) x = x # replicate (pred_numeral k) x"
  unfolding numeral_eq_Suc[of k] by simp

lemma toy_ciphertextCore:
  "ciphertextCore toy toy_key \<lparr>data = [0, 0], keyId = Some 0, counter = Some 0, rawCounter = [0]\<rparr>
     [1, 2, 3, 4, 5]
   = Some [63, 60, 61, 58, 59, 143, 143, 143, 143, 143, 143, 143, 143,
           143, 143, 143, 143, 143, 143, 143, 143]"
  by (simp add: ciphertextCore_def toy_key_eq generateIV_eq toy_def toy_encrypt_def toy_pad_def
      toy_tag_def replicate_numeral)

lemma toy_ciphertextCore_tail:
  "ciphertextCore toy toy_key \<lparr>data = [0, 0], keyId = Some 0, counter = Some 0, rawCounter = [0]\<rparr>
     [3, 4, 5]
   = Some [61, 58, 59, 140, 140, 140, 140, 140, 140, 140, 140, 140, 140,
           140, 140, 140, 140, 140, 140]"
  by (simp add: ciphertextCore_def toy_key_eq generateIV_eq toy_def toy_encrypt_def toy_pad_def
      toy_tag_def replicate_numeral)

lemma toy_frame_tag:
  "frame_tag toy toy_key ([0, 0] @ [63, 60, 61, 58, 59, 143, 143, 143, 143, 143, 143, 143, 143,
           143, 143, 143, 143, 143, 143, 143, 143])
   = [45, 45, 45, 45, 45, 45, 45, 45]"
  by (simp add: frame_tag_def toy_key_eq toy_def toy_sign_def replicate_numeral Let_def)

lemma toy_Sender_encrypt:
  "Sender_encrypt toy toy_sender [1, 2, 3, 4, 5] 2
   = (Inr [1, 2, 0, 0, 63, 60, 61, 58, 59, 143, 143, 143, 143, 143, 143, 143,
           143, 143, 143, 143, 143, 143, 143, 143, 143, 45, 45, 45, 45, 45, 45, 45, 45],
      toy_sender\<lparr>senderCounter := 1\<rparr>)"
proof -
  have r: "js_round (0 + 1) = 1" by (simp add: js_round_def)
  show ?thesis
    using Sender_encrypt_eq[of toy_sender toy_key _ toy "[1, 2, 3, 4, 5]" _ 2,
            OF _ _ toy_ciphertextCore] generate_0_0 toy_frame_tag r
    by (simp add: toy_sender_def)
qed

lemma subarray_from_nonneg: "0 \<le> b \<Longrightarrow> subarray_from xs b = drop (nat b) xs"
  using subarray_from_drop[of xs "nat b"] by simp

lemma tags_differ:
  "0 < n \<Longrightarrow> view_at a 0 \<noteq> view_at b 0 \<Longrightarrow> \<not> tags_equal a b n"
  by (auto simp add: tags_equal_iff)

lemma toy_otherKey_rejects:
  "key_rejects toy toy_otherKey
     [1, 2, 0, 0, 63, 60, 61, 58, 59, 143, 143, 143, 143, 143, 143, 143,
      143, 143, 143, 143, 143, 143, 143, 143, 143, 45, 45, 45, 45, 45, 45, 45, 45] 2"
proof -
  let ?frame = "[1, 2, 0, 0, 63, 60, 61, 58, 59, 143, 143, 143, 143, 143, 143, 143,
      143, 143, 143, 143, 143, 143, 143, 143, 143, 45, 45, 45, 45, 45, 45, 45, 45] :: bytes"
  let ?h = "\<lparr>data = [0, 0], keyId = Some 0, counter = Some 0, rawCounter = [0]\<rparr>"
  have "parseSFrameHeader ([0, 0] @ drop 4 ?frame) = ?h"
    using parse_generate[OF _ _ _ _ generate_0_0, of "drop 4 ?frame"]
    by (simp add: SFRAME_HEADER_MAXKEYID_def is_double_small)
  then have p: "parseSFrameHeader (subarray_from ?frame (int 2)) = ?h"
    by (simp add: subarray_from_nonneg)
  have code: "subtle_sign toy (authKey (cipherSuite toy_otherKey)) ([0, 0] @ drop 4 (take 25 ?frame))
              = replicate 32 205"
    by (simp add: toy_def toy_sign_def toy_otherKey_eq replicate_numeral)
  have "SFrameCrypto_decrypt toy toy_otherKey ?h ?frame 2 = Inl (JsError ''Authentication error'')"
    using code
    by (simp add: SFrameCrypto_decrypt_def Let_def toy_otherKey_eq generateIV_eq
        subarray_def rel_index_def tags_differ view_at_def replicate_numeral)
  then show ?thesis
    unfolding key_rejects_def p by simp
qed

section \<open>Encrypt and decrypt: claims\<close>

text \<open>
  For primitives whose decryption inverts their encryption: let the sender hold the key
  derived from raw key material under a variant, and let the receiver hold the same key in
  its keyring, every older key of the ring rejecting the frame and the counter being
  inside the replay window. Then for every plaintext \<open>P\<close> and skip \<open>s \<le> |P|\<close> the sender's
  encrypt returns a frame, and decrypting that frame with the same skip returns \<open>P\<close>.
\<close>

lemma roundtrip_inverting_primitives:
  assumes "webcrypto_ok cr"
    and "createSFrameCrypto cr rawKey variant = Inr k"
    and "senderKey sdr = Some k"
    and "0 \<le> senderId sdr" and "senderId sdr \<le> SFRAME_HEADER_MAXKEYID"
    and "senderCounter sdr \<le> 2 ^ 53"
    and "s \<le> length P"
    and "keyring rcv = older @ k # newer"
    and "\<forall>k' \<in> set older. key_rejects cr k' (projr (fst (Sender_encrypt cr sdr P s))) s"
    and "\<forall>m. maxReceivedCounter rcv = Some m \<longrightarrow> m \<le> int (senderCounter sdr) + ReplayWindow"
  shows "\<exists>frame. fst (Sender_encrypt cr sdr P s) = Inr frame
           \<and> fst (decrypt_frame cr rcv frame s) = Inr P"
proof -
  obtain h c where h: "generateSFrameHeader (senderId sdr) (senderCounter sdr) = Inr h"
    and c: "ciphertextCore cr k h P = Some c"
    and e: "Sender_encrypt cr sdr P s
               = (Inr (take s P @ replicate (s - length P) 0 @ data h @ c @ frame_tag cr k (data h @ c)),
                  sdr\<lparr>senderCounter := js_round (senderCounter sdr + 1)\<rparr>)"
    using Sender_encrypt_ok[OF assms(1-6)] by blast
  let ?frame = "take s P @ data h @ c @ frame_tag cr k (data h @ c)"
  have f: "fst (Sender_encrypt cr sdr P s) = Inr ?frame"
    using e assms(7) by simp
  have older: "\<forall>k' \<in> set older. key_rejects cr k' ?frame s"
    using assms(9) unfolding f by simp
  have "\<not> (\<exists>m. maxReceivedCounter rcv = Some m \<and> int (senderCounter sdr) < m
               \<and> m - int (senderCounter sdr) > 128)"
    using assms(10) by (auto simp add: ReplayWindow_def)
  then have "fst (decrypt_frame cr rcv ?frame s) = Inr P"
    using valid_frame_decrypt[OF assms(1,2,4,5,6) h c assms(7,8) older] by simp
  then show ?thesis using f by simp
qed

lemma SFrameCrypto_encrypt_cong:
  assumes "subtle_encrypt cr' (algorithm (config (cipherSuite k)))
             = subtle_encrypt cr (algorithm (config (cipherSuite k)))"
    and "subtle_sign cr' = subtle_sign cr"
  shows "SFrameCrypto_encrypt cr' k h P s = SFrameCrypto_encrypt cr k h P s"
  unfolding SFrameCrypto_encrypt_def assms ..

lemma SFrameCrypto_decrypt_cong:
  assumes "subtle_decrypt cr' (algorithm (config (cipherSuite k)))
             = subtle_decrypt cr (algorithm (config (cipherSuite k)))"
    and "subtle_sign cr' = subtle_sign cr"
  shows "SFrameCrypto_decrypt cr' k h f s = SFrameCrypto_decrypt cr k h f s"
  unfolding SFrameCrypto_decrypt_def assms ..

lemma try_keys_cong:
  assumes "\<forall>k \<in> set ks. subtle_decrypt cr' (algorithm (config (cipherSuite k)))
                            = subtle_decrypt cr (algorithm (config (cipherSuite k)))"
    and "subtle_sign cr' = subtle_sign cr"
  shows "try_keys cr' ks h f s = try_keys cr ks h f s"
  using assms(1)
proof (induction ks)
  case Nil
  then show ?case by simp
next
  case (Cons a ks)
  then have ih: "try_keys cr' ks h f s = try_keys cr ks h f s" by simp
  have "SFrameCrypto_decrypt cr' a h f s = SFrameCrypto_decrypt cr a h f s"
    using Cons.prems by (intro SFrameCrypto_decrypt_cong[OF _ assms(2)]) simp
  then show ?case unfolding try_keys.simps ih by (simp only:)
qed

lemma decrypt_frame_cong:
  assumes "\<forall>k \<in> set (keyring rcv). subtle_decrypt cr' (algorithm (config (cipherSuite k)))
                            = subtle_decrypt cr (algorithm (config (cipherSuite k)))"
    and "subtle_sign cr' = subtle_sign cr"
  shows "decrypt_frame cr' rcv f s = decrypt_frame cr rcv f s"
  unfolding decrypt_frame_def Receiver_decrypt_def try_keys_cong[OF assms] ..

lemma Sender_encrypt_cong:
  assumes "senderKey sdr = Some k"
    and "subtle_encrypt cr' (algorithm (config (cipherSuite k)))
             = subtle_encrypt cr (algorithm (config (cipherSuite k)))"
    and "subtle_sign cr' = subtle_sign cr"
  shows "Sender_encrypt cr' sdr P s = Sender_encrypt cr sdr P s"
  unfolding Sender_encrypt_def assms(1) option.case SFrameCrypto_encrypt_cong[OF assms(2,3)] ..

lemma createSFrameCrypto_cong:
  assumes "hkdf cr' = hkdf cr"
  shows "createSFrameCrypto cr' raw V = createSFrameCrypto cr raw V"
  unfolding createSFrameCrypto_def createCipherSuite_def assms ..

lemma createSFrameCrypto_aes_gcm:
  assumes "createSFrameCrypto cr rawKey variant = Inr k"
    and "variant = AES_GCM_128_SHA256 \<or> variant = AES_GCM_256_SHA512"
  shows "algorithm (config (cipherSuite k)) = ''AES-GCM''"
  using assms
  by (auto simp add: createSFrameCrypto_def createCipherSuite_def getCipherSuiteConfig_def Let_def)

text \<open>
  Under the two \<^verbatim>\<open>AES_GCM\<close> variants the round trip needs the primitives to invert
  each other for \<^verbatim>\<open>AES-GCM\<close> only.
\<close>

lemma roundtrip_aes_gcm:
  assumes "webcrypto_aes_gcm cr"
    and "variant = AES_GCM_128_SHA256 \<or> variant = AES_GCM_256_SHA512"
    and "createSFrameCrypto cr rawKey variant = Inr k"
    and "senderKey sdr = Some k"
    and "0 \<le> senderId sdr" and "senderId sdr \<le> SFRAME_HEADER_MAXKEYID"
    and "senderCounter sdr \<le> 2 ^ 53"
    and "s \<le> length P"
    and "keyring rcv = older @ k # newer"
    and "\<forall>k' \<in> set (keyring rcv). algorithm (config (cipherSuite k')) = ''AES-GCM''"
    and "\<forall>k' \<in> set older. key_rejects cr k' (projr (fst (Sender_encrypt cr sdr P s))) s"
    and "\<forall>m. maxReceivedCounter rcv = Some m \<longrightarrow> m \<le> int (senderCounter sdr) + ReplayWindow"
  shows "\<exists>frame. fst (Sender_encrypt cr sdr P s) = Inr frame
           \<and> fst (decrypt_frame cr rcv frame s) = Inr P"
proof -
  define cr' where "cr' = cr\<lparr>subtle_encrypt := \<lambda>name. subtle_encrypt cr ''AES-GCM'',
                               subtle_decrypt := \<lambda>name. subtle_decrypt cr ''AES-GCM''\<rparr>"
  have ok: "webcrypto_ok cr'"
    using assms(1) by (simp add: webcrypto_ok_def webcrypto_aes_gcm_def cr'_def)
  have sg: "subtle_sign cr' = subtle_sign cr" and hk: "hkdf cr' = hkdf cr"
    by (simp_all add: cr'_def)
  have a: "algorithm (config (cipherSuite k)) = ''AES-GCM''"
    using assms(3,2) by (rule createSFrameCrypto_aes_gcm)
  have en: "subtle_encrypt cr' (algorithm (config (cipherSuite k)))
              = subtle_encrypt cr (algorithm (config (cipherSuite k)))"
    by (simp add: cr'_def a)
  have de: "\<forall>k' \<in> set (keyring rcv). subtle_decrypt cr' (algorithm (config (cipherSuite k')))
              = subtle_decrypt cr (algorithm (config (cipherSuite k')))"
    using assms(10) by (simp add: cr'_def)
  have key: "createSFrameCrypto cr' rawKey variant = Inr k"
    using assms(3) by (simp add: createSFrameCrypto_cong[OF hk])
  have se: "Sender_encrypt cr' sdr P s = Sender_encrypt cr sdr P s"
    by (rule Sender_encrypt_cong[OF assms(4) en sg])
  have df: "\<And>f. decrypt_frame cr' rcv f s = decrypt_frame cr rcv f s"
    by (rule decrypt_frame_cong[OF de sg])
  have rej: "\<forall>k' \<in> set older. key_rejects cr' k' (projr (fst (Sender_encrypt cr' sdr P s))) s"
  proof
    fix k' assume k': "k' \<in> set older"
    then have "k' \<in> set (keyring rcv)" by (simp add: assms(9))
    then have "subtle_decrypt cr' (algorithm (config (cipherSuite k')))
              = subtle_decrypt cr (algorithm (config (cipherSuite k')))"
      using de by simp
    then have "\<And>h f. SFrameCrypto_decrypt cr' k' h f s = SFrameCrypto_decrypt cr k' h f s"
      using sg by (rule SFrameCrypto_decrypt_cong)
    then show "key_rejects cr' k' (projr (fst (Sender_encrypt cr' sdr P s))) s"
      using assms(11) k' by (simp add: key_rejects_def se)
  qed
  show ?thesis
    using roundtrip_inverting_primitives[OF ok key assms(4-9) rej assms(12)]
    unfolding se df .
qed

lemma SFrameCrypto_encrypt_rejected:
  assumes "aes_ctr_rejected cr" and "algorithm (config (cipherSuite k)) = ''AES-CTR''"
  shows "isl (SFrameCrypto_encrypt cr k h P s)"
  using assms
  by (auto simp add: SFrameCrypto_encrypt_def aes_ctr_rejected_def split: sum.splits)

lemma createSFrameCrypto_aes_cm:
  assumes "createSFrameCrypto cr rawKey variant = Inr k"
    and "variant = AES_CM_128_HMAC_SHA256_8 \<or> variant = AES_CM_128_HMAC_SHA256_4"
  shows "algorithm (config (cipherSuite k)) = ''AES-CTR''"
  using assms
  by (auto simp add: createSFrameCrypto_def createCipherSuite_def getCipherSuiteConfig_def Let_def)

lemma webcrypto_aes_gcm_toy_strict: "webcrypto_aes_gcm toy_strict"
proof -
  have "toy_decrypt ''AES-GCM'' iv len ad key (map (\<lambda>b. b XOR toy_pad key iv) p @ toy_tag key ad p)
          = Some p"
    for iv len ad key p
    by (simp add: toy_decrypt_def toy_tag_def Let_def comp_def xor_xor_cancel)
  then show ?thesis
    by (simp add: webcrypto_aes_gcm_def toy_strict_def toy_sign_def toy_hkdf_def toy_encrypt_def)
qed

text \<open>
  Claim C1. The claim: for every plaintext \<open>P\<close>, skip \<open>s \<le> |P|\<close> and every one of the four
  cipher-suite variants, a sender and a receiver set up from the same raw key satisfy
  \<open>decrypt(encrypt(P, s), s) = P\<close>. The code does not meet it for the two \<^verbatim>\<open>AES_CM\<close>
  variants: their algorithm is \<^verbatim>\<open>AES-CTR\<close>, \<^verbatim>\<open>crypto.subtle.encrypt\<close> rejects the
  parameters the library passes, and the sender's encrypt throws for every plaintext and
  skip, so that there is no frame to decrypt.
\<close>

theorem aes_cm_encrypt_throws:
  assumes "aes_ctr_rejected cr"
    and "variant = AES_CM_128_HMAC_SHA256_8 \<or> variant = AES_CM_128_HMAC_SHA256_4"
    and "createSFrameCrypto cr rawKey variant = Inr k"
    and "senderKey sdr = Some k"
  shows "isl (fst (Sender_encrypt cr sdr P s))"
proof -
  have a: "algorithm (config (cipherSuite k)) = ''AES-CTR''"
    using assms(3,2) by (rule createSFrameCrypto_aes_cm)
  show ?thesis
  proof (cases "generateSFrameHeader (senderId sdr) (senderCounter sdr)")
    case (Inl e)
    then show ?thesis using assms(4) by (simp add: Sender_encrypt_def Let_def)
  next
    case (Inr h)
    then show ?thesis
      using assms(4) SFrameCrypto_encrypt_rejected[OF assms(1) a, of h P s]
      by (auto simp add: Sender_encrypt_def Let_def isl_def)
  qed
qed

theorem aes_cm_encrypt_throws_witness:
  "aes_ctr_rejected toy_strict \<and> webcrypto_aes_gcm toy_strict
   \<and> createSFrameCrypto toy_strict toy_rawKey AES_CM_128_HMAC_SHA256_8 = Inr toy_cm_key
   \<and> senderKey \<lparr>senderId = 0, senderCounter = 0, senderKey = Some toy_cm_key\<rparr> = Some toy_cm_key
   \<and> isl (fst (Sender_encrypt toy_strict
                   \<lparr>senderId = 0, senderCounter = 0, senderKey = Some toy_cm_key\<rparr> [1, 2, 3, 4, 5] 2))"
proof -
  have 1: "aes_ctr_rejected toy_strict" by (simp add: aes_ctr_rejected_def toy_strict_def)
  have 3: "createSFrameCrypto toy_strict toy_rawKey AES_CM_128_HMAC_SHA256_8 = Inr toy_cm_key"
    using createSFrameCrypto_Inr[of toy_strict toy_rawKey AES_CM_128_HMAC_SHA256_8]
    by (auto simp add: toy_cm_key_def)
  have 4: "senderKey \<lparr>senderId = 0, senderCounter = 0, senderKey = Some toy_cm_key\<rparr> = Some toy_cm_key"
    by simp
  show ?thesis
    using aes_cm_encrypt_throws[OF 1 _ 3 4, of "[1, 2, 3, 4, 5]" 2] 1 3
      webcrypto_aes_gcm_toy_strict by simp
qed

lemma length_frame_tag [simp]: "length (frame_tag cr k m) = nT (config (cipherSuite k))"
  by (simp add: frame_tag_def Let_def)

lemma Sender_encrypt_frame:
  assumes "Sender_encrypt cr sdr P s = (Inr frame, sdr')"
  shows "\<exists>k h c. senderKey sdr = Some k
           \<and> generateSFrameHeader (senderId sdr) (senderCounter sdr) = Inr h
           \<and> ciphertextCore cr k h P = Some c
           \<and> frame = take s P @ replicate (s - length P) 0 @ data h @ c @ frame_tag cr k (data h @ c)
           \<and> sdr' = sdr\<lparr>senderCounter := js_round (senderCounter sdr + 1)\<rparr>"
proof -
  obtain k h c where k: "senderKey sdr = Some k"
    and h: "generateSFrameHeader (senderId sdr) (senderCounter sdr) = Inr h"
    and c: "ciphertextCore cr k h P = Some c"
    using Sender_encrypt_InrD[OF assms] by blast
  show ?thesis
    using assms k h c unfolding Sender_encrypt_eq[OF k h c] by simp
qed

text \<open>
  Claim C4, corrected. For every plaintext \<open>P\<close> and skip \<open>s \<le> |P|\<close>, the first \<open>s\<close> bytes of
  the frame that encrypt returns are \<open>P[0..s)\<close>; the bytes between the header and the tag
  are the AEAD output for the whole payload \<open>P\<close>, skip prefix included.
\<close>

theorem skip_prefix_clear_payload_whole:
  assumes "Sender_encrypt cr sdr P s = (Inr frame, sdr')" and "s \<le> length P"
  shows "take s frame = take s P
         \<and> (\<exists>k h c. senderKey sdr = Some k
               \<and> generateSFrameHeader (senderId sdr) (senderCounter sdr) = Inr h
               \<and> ciphertextCore cr k h P = Some c
               \<and> subarray frame (int (s + length (data h)))
                    (int (s + length (data h) + length c)) = c)"
proof -
  obtain k h c where k: "senderKey sdr = Some k"
    and h: "generateSFrameHeader (senderId sdr) (senderCounter sdr) = Inr h"
    and c: "ciphertextCore cr k h P = Some c"
    and f: "frame = take s P @ replicate (s - length P) 0 @ data h @ c @ frame_tag cr k (data h @ c)"
    using Sender_encrypt_frame[OF assms(1)] by blast
  have f': "frame = (take s P @ data h) @ c @ frame_tag cr k (data h @ c)"
    using f assms(2) by simp
  have "subarray frame (int (s + length (data h))) (int (s + length (data h) + length c)) = c"
    unfolding f' by (rule subarray_middle) (use assms(2) in simp)
  moreover have "take s frame = take s P" using f assms(2) by simp
  ultimately show ?thesis using k h c by blast
qed

theorem skip_prefix_clear_payload_whole_witness:
  "Sender_encrypt toy toy_sender [1, 2, 3, 4, 5] 2
     = (Inr [1, 2, 0, 0, 63, 60, 61, 58, 59, 143, 143, 143, 143, 143, 143, 143,
           143, 143, 143, 143, 143, 143, 143, 143, 143, 45, 45, 45, 45, 45, 45, 45, 45],
        toy_sender\<lparr>senderCounter := 1\<rparr>)
   \<and> 2 \<le> length [1, 2, 3, 4, 5 :: u8]
   \<and> take 2 ([1, 2, 0, 0, 63, 60, 61, 58, 59, 143, 143, 143, 143, 143, 143, 143,
           143, 143, 143, 143, 143, 143, 143, 143, 143, 45, 45, 45, 45, 45, 45, 45, 45] :: bytes) = take 2 [1, 2, 3, 4, 5]
   \<and> (\<exists>k h c. senderKey toy_sender = Some k
         \<and> generateSFrameHeader (senderId toy_sender) (senderCounter toy_sender) = Inr h
         \<and> ciphertextCore toy k h [1, 2, 3, 4, 5] = Some c
         \<and> subarray [1, 2, 0, 0, 63, 60, 61, 58, 59, 143, 143, 143, 143, 143, 143, 143,
           143, 143, 143, 143, 143, 143, 143, 143, 143, 45, 45, 45, 45, 45, 45, 45, 45]
               (int (2 + length (data h))) (int (2 + length (data h) + length c)) = c)"
proof -
  have l: "2 \<le> length [1, 2, 3, 4, 5 :: u8]" by simp
  show ?thesis
    using skip_prefix_clear_payload_whole[OF toy_Sender_encrypt l] toy_Sender_encrypt l
    by blast
qed

theorem skip_prefix_not_excluded_counterexample:
  "fst (Sender_encrypt toy toy_sender [1, 2, 3, 4, 5] 2)
     = Inr ([1, 2] @ [0, 0]
            @ [63, 60, 61, 58, 59, 143, 143, 143, 143, 143, 143, 143, 143,
           143, 143, 143, 143, 143, 143, 143, 143]
            @ [45, 45, 45, 45, 45, 45, 45, 45])
   \<and> generateSFrameHeader (senderId toy_sender) (senderCounter toy_sender)
       = Inr \<lparr>data = [0, 0], keyId = Some 0, counter = Some 0, rawCounter = [0]\<rparr>
   \<and> ciphertextCore toy toy_key \<lparr>data = [0, 0], keyId = Some 0, counter = Some 0, rawCounter = [0]\<rparr> [1, 2, 3, 4, 5]
       = Some [63, 60, 61, 58, 59, 143, 143, 143, 143, 143, 143, 143, 143,
           143, 143, 143, 143, 143, 143, 143, 143]
   \<and> ciphertextCore toy toy_key \<lparr>data = [0, 0], keyId = Some 0, counter = Some 0, rawCounter = [0]\<rparr> (drop 2 [1, 2, 3, 4, 5])
       = Some [61, 58, 59, 140, 140, 140, 140, 140, 140, 140, 140, 140, 140,
           140, 140, 140, 140, 140, 140]
   \<and> ([63, 60, 61, 58, 59, 143, 143, 143, 143, 143, 143, 143, 143,
           143, 143, 143, 143, 143, 143, 143, 143] :: bytes)
       \<noteq> [61, 58, 59, 140, 140, 140, 140, 140, 140, 140, 140, 140, 140,
           140, 140, 140, 140, 140, 140]"
  using toy_Sender_encrypt generate_0_0 toy_ciphertextCore toy_ciphertextCore_tail
  by (simp add: toy_sender_def)

text \<open>
  Claim C5, corrected. The frame that encrypt returns has length
  \<open>s + |header.data| + |ciphertextCore| + nT\<close>, where \<open>ciphertextCore\<close> is what the AEAD
  primitive returns for \<open>P\<close>; the bytes between the header and the trailing \<open>nT\<close>-byte tag
  are \<open>ciphertextCore\<close>.
\<close>

theorem frame_length:
  assumes "Sender_encrypt cr sdr P s = (Inr frame, sdr')"
  shows "\<exists>k h c. senderKey sdr = Some k
           \<and> generateSFrameHeader (senderId sdr) (senderCounter sdr) = Inr h
           \<and> ciphertextCore cr k h P = Some c
           \<and> length frame = s + length (data h) + length c + nT (config (cipherSuite k))
           \<and> take (length c) (drop (s + length (data h)) frame) = c
           \<and> length (drop (s + length (data h) + length c) frame) = nT (config (cipherSuite k))"
proof -
  obtain k h c where k: "senderKey sdr = Some k"
    and h: "generateSFrameHeader (senderId sdr) (senderCounter sdr) = Inr h"
    and c: "ciphertextCore cr k h P = Some c"
    and f: "frame = take s P @ replicate (s - length P) 0 @ data h @ c @ frame_tag cr k (data h @ c)"
    using Sender_encrypt_frame[OF assms(1)] by blast
  define pre where "pre = take s P @ replicate (s - length P) (0 :: u8)"
  have lp: "length pre = s" by (simp add: pre_def)
  have f': "frame = (pre @ data h) @ c @ frame_tag cr k (data h @ c)" using f by (simp add: pre_def)
  have l: "length frame = s + length (data h) + length c + nT (config (cipherSuite k))"
    unfolding f' using lp by simp
  have "drop (s + length (data h)) frame = c @ frame_tag cr k (data h @ c)"
    unfolding f' using lp by simp
  then have "take (length c) (drop (s + length (data h)) frame) = c" by simp
  moreover have "length (drop (s + length (data h) + length c) frame) = nT (config (cipherSuite k))"
    using l by simp
  ultimately show ?thesis using k h c l by blast
qed


theorem frame_length_witness:
  "Sender_encrypt toy toy_sender [1, 2, 3, 4, 5] 2
     = (Inr [1, 2, 0, 0, 63, 60, 61, 58, 59, 143, 143, 143, 143, 143, 143, 143,
           143, 143, 143, 143, 143, 143, 143, 143, 143, 45, 45, 45, 45, 45, 45, 45, 45],
        toy_sender\<lparr>senderCounter := 1\<rparr>)
   \<and> (\<exists>k h c. senderKey toy_sender = Some k
         \<and> generateSFrameHeader (senderId toy_sender) (senderCounter toy_sender) = Inr h
         \<and> ciphertextCore toy k h [1, 2, 3, 4, 5] = Some c
         \<and> length ([1, 2, 0, 0, 63, 60, 61, 58, 59, 143, 143, 143, 143, 143, 143, 143,
           143, 143, 143, 143, 143, 143, 143, 143, 143, 45, 45, 45, 45, 45, 45, 45, 45] :: bytes)
             = 2 + length (data h) + length c + nT (config (cipherSuite k)))"
  using frame_length[OF toy_Sender_encrypt] toy_Sender_encrypt
  by blast

theorem frame_length_counterexample:
  "fst (Sender_encrypt toy toy_sender [1, 2, 3, 4, 5] 2)
     = Inr [1, 2, 0, 0, 63, 60, 61, 58, 59, 143, 143, 143, 143, 143, 143, 143,
           143, 143, 143, 143, 143, 143, 143, 143, 143, 45, 45, 45, 45, 45, 45, 45, 45]
   \<and> generateSFrameHeader (senderId toy_sender) (senderCounter toy_sender)
       = Inr \<lparr>data = [0, 0], keyId = Some 0, counter = Some 0, rawCounter = [0]\<rparr>
   \<and> senderKey toy_sender = Some toy_key
   \<and> nT (config (cipherSuite toy_key)) = 8
   \<and> length ([1, 2, 0, 0, 63, 60, 61, 58, 59, 143, 143, 143, 143, 143, 143, 143,
           143, 143, 143, 143, 143, 143, 143, 143, 143, 45, 45, 45, 45, 45, 45, 45, 45] :: bytes) = 33
   \<and> 2 + length (data \<lparr>data = [0, 0], keyId = Some 0, counter = Some 0, rawCounter = [0]\<rparr>) + length [1, 2, 3, 4, 5 :: u8]
         + nT (config (cipherSuite toy_key)) = 17"
  using toy_Sender_encrypt generate_0_0
  by (simp add: toy_sender_def toy_key_eq)

section \<open>Missing keys: claim\<close>

text \<open>
  Claim C9, corrected. \<open>Sender.encrypt\<close> with no key installed fails with \<open>InvalidKey\<close>.
  \<open>Context.encrypt\<close> fails with \<open>EncryptionFailure\<close> when the context has no sender, and
  with \<open>InvalidKey\<close> when its sender has no key. \<open>Context.decrypt\<close> of a frame whose parsed
  key id has no registered receiver fails with \<open>InvalidKey\<close>.
\<close>

theorem missing_key_errors:
  "(senderKey sdr = None \<longrightarrow> fst (Sender_encrypt cr sdr P s) = Inl (SFrameError InvalidKey))
   \<and> (sender ctx = None \<longrightarrow> fst (Context_encrypt cr ctx P s) = Inl (SFrameError EncryptionFailure))
   \<and> (sender ctx = Some sdr \<and> senderKey sdr = None
        \<longrightarrow> fst (Context_encrypt cr ctx P s) = Inl (SFrameError InvalidKey))
   \<and> (receivers_get ctx (keyId (parseSFrameHeader (subarray_from frame (int s)))) = None
        \<longrightarrow> fst (Context_decrypt cr ctx frame s) = Inl (SFrameError InvalidKey))"
  by (simp add: Sender_encrypt_def Context_encrypt_def Context_decrypt_def Let_def)

theorem missing_key_errors_witness:
  "senderKey \<lparr>senderId = 0, senderCounter = 0, senderKey = None\<rparr> = None
   \<and> fst (Sender_encrypt toy \<lparr>senderId = 0, senderCounter = 0, senderKey = None\<rparr> [1, 2, 3] 0)
       = Inl (SFrameError InvalidKey)
   \<and> sender new_Context = None
   \<and> fst (Context_encrypt toy new_Context [1, 2, 3] 0) = Inl (SFrameError EncryptionFailure)
   \<and> sender (new_Context\<lparr>sender := Some \<lparr>senderId = 0, senderCounter = 0, senderKey = None\<rparr>\<rparr>)
       = Some \<lparr>senderId = 0, senderCounter = 0, senderKey = None\<rparr>
   \<and> fst (Context_encrypt toy
            (new_Context\<lparr>sender := Some \<lparr>senderId = 0, senderCounter = 0, senderKey = None\<rparr>\<rparr>)
            [1, 2, 3] 0) = Inl (SFrameError InvalidKey)
   \<and> receivers_get new_Context (keyId (parseSFrameHeader (subarray_from [0x03, 0x00, 0xca] (int 0))))
       = None
   \<and> fst (Context_decrypt toy new_Context [0x03, 0x00, 0xca] 0) = Inl (SFrameError InvalidKey)"
proof -
  let ?s = "\<lparr>senderId = 0, senderCounter = 0, senderKey = None\<rparr>"
  let ?c = "new_Context\<lparr>sender := Some ?s\<rparr>"
  have 1: "senderKey ?s = None" by simp
  have 2: "sender new_Context = None" by (simp add: new_Context_def)
  have 3: "sender ?c = Some ?s" by simp
  have 4: "receivers_get new_Context
             (keyId (parseSFrameHeader (subarray_from [0x03, 0x00, 0xca] (int 0)))) = None"
    by (simp add: receivers_get_def new_Context_def split: option.splits)
  show ?thesis
    using missing_key_errors[of ?s toy "[1, 2, 3]" 0 new_Context "[0x03, 0x00, 0xca]"]
      missing_key_errors[of ?s toy "[1, 2, 3]" 0 ?c "[0x03, 0x00, 0xca]"] 1 2 3 4
    by simp
qed

theorem context_encrypt_without_sender_counterexample:
  "sender new_Context = None
   \<and> fst (Context_encrypt toy new_Context [1, 2, 3] 0) = Inl (SFrameError EncryptionFailure)
   \<and> SFrameError EncryptionFailure \<noteq> SFrameError InvalidKey"
  by (simp add: Context_encrypt_def new_Context_def)

section \<open>The sender counter: claim\<close>

lemma js_round_succ_small: "c < 2 ^ 53 \<Longrightarrow> js_round (Suc c) = Suc c"
  using is_double_small[of "Suc c"] by (simp add: is_double_def)

lemma floorlog2_54: "floorlog 2 (2 ^ 53 + 1) = 54"
proof -
  have "floorlog 2 (2 ^ 53 + 1) \<le> 54" by (simp add: floorlog_le_iff)
  moreover have "Suc 53 \<le> floorlog 2 (2 ^ 53 + 1)" by (rule floorlog_ge_SucI) simp_all
  ultimately show ?thesis by simp
qed

lemma js_round_succ_max: "js_round (Suc (2 ^ 53)) = 2 ^ 53"
proof -
  have "js_round (2 ^ 53 + 1) = 2 ^ 53"
    unfolding js_round_def floorlog2_54 Let_def by simp
  then show ?thesis by simp
qed

lemma js_round_succ_le: "c \<le> 2 ^ 53 \<Longrightarrow> c \<le> js_round (Suc c) \<and> js_round (Suc c) \<le> 2 ^ 53"
proof (cases "c < 2 ^ 53")
  case True
  then show ?thesis by (simp add: js_round_succ_small)
next
  case False
  assume "c \<le> 2 ^ 53"
  with False have c: "c = 2 ^ 53" by simp
  show ?thesis unfolding c js_round_succ_max by simp
qed

lemma Sender_encrypt_counter:
  "senderCounter (snd (Sender_encrypt cr sdr P s))
     = (if senderKey sdr = None then senderCounter sdr else js_round (senderCounter sdr + 1))"
  by (auto simp add: Sender_encrypt_def Let_def split: option.splits sum.splits prod.splits)

lemma Sender_encrypt_key:
  "senderKey (snd (Sender_encrypt cr sdr P s)) = senderKey sdr"
  by (auto simp add: Sender_encrypt_def Let_def split: option.splits sum.splits prod.splits)

lemma Sender_encrypt_iterate:
  assumes "senderKey sdr \<noteq> None" and "senderCounter sdr + n \<le> 2 ^ 53"
  shows "senderCounter (((\<lambda>x. snd (Sender_encrypt cr x P s)) ^^ n) sdr) = senderCounter sdr + n
         \<and> senderKey (((\<lambda>x. snd (Sender_encrypt cr x P s)) ^^ n) sdr) = senderKey sdr"
  using assms(2)
proof (induction n)
  case 0
  then show ?case by simp
next
  case (Suc n)
  let ?x = "((\<lambda>x. snd (Sender_encrypt cr x P s)) ^^ n) sdr"
  have ih: "senderCounter ?x = senderCounter sdr + n" "senderKey ?x = senderKey sdr"
    using Suc by simp_all
  have lt: "senderCounter ?x < 2 ^ 53" using Suc.prems ih(1) by simp
  show ?case
    using assms(1) ih lt
    by (simp add: Sender_encrypt_counter Sender_encrypt_key js_round_succ_small)
qed

lemma Sender_encrypt_header_counter:
  assumes "Sender_encrypt cr sdr P s = (Inr frame, sdr')"
    and "0 \<le> senderId sdr" and "senderId sdr \<le> SFRAME_HEADER_MAXKEYID"
    and "senderCounter sdr \<le> 2 ^ 53"
  shows "counter (parseSFrameHeader (subarray_from frame (int s))) = Some (senderCounter sdr)"
proof -
  obtain k h c where h: "generateSFrameHeader (senderId sdr) (senderCounter sdr) = Inr h"
    and f: "frame = take s P @ replicate (s - length P) 0 @ data h @ c @ frame_tag cr k (data h @ c)"
    using Sender_encrypt_frame[OF assms(1)] by blast
  define pre where "pre = take s P @ replicate (s - length P) (0 :: u8)"
  have lp: "length pre = s" by (simp add: pre_def)
  have "frame = pre @ data h @ c @ frame_tag cr k (data h @ c)" using f by (simp add: pre_def)
  then have d: "subarray_from frame (int s) = data h @ (c @ frame_tag cr k (data h @ c))"
    using lp by (simp add: subarray_from_drop)
  have c64: "senderCounter sdr < 2 ^ 64" using assms(4) by (rule le_less_trans) simp
  have "parseSFrameHeader (subarray_from frame (int s)) = h"
    unfolding d by (rule parse_generate[OF assms(2,3) c64 is_double_small[OF assms(4)] h])
  moreover have "counter h = Some (senderCounter sdr)"
    using generateSFrameHeader_eq[OF assms(2,3) generateSFrameHeader_Inr[OF h]] h by auto
  ultimately show ?thesis by simp
qed

text \<open>
  A new Sender has counter 0. An encrypt puts the Sender's counter into the header of the
  frame it returns and, while the counter is below \<open>2\<^sup>5\<^sup>3\<close>, leaves the Sender with that
  counter plus 1, so that \<open>n\<close> encrypts from counter \<open>c\<close> lead to \<open>c + n\<close>; the counter never
  decreases and never exceeds \<open>2\<^sup>5\<^sup>3\<close>.
\<close>

lemma sender_counter_steps:
  "(new_Sender sid = Inr sdr0 \<longrightarrow> senderCounter sdr0 = 0)
   \<and> (Sender_encrypt cr sdr P s = (Inr frame, sdr') \<and> 0 \<le> senderId sdr
        \<and> senderId sdr \<le> SFRAME_HEADER_MAXKEYID \<and> senderCounter sdr \<le> 2 ^ 53
        \<longrightarrow> counter (parseSFrameHeader (subarray_from frame (int s))) = Some (senderCounter sdr))
   \<and> (senderKey sdr \<noteq> None \<and> senderCounter sdr < 2 ^ 53
        \<longrightarrow> senderCounter (snd (Sender_encrypt cr sdr P s)) = senderCounter sdr + 1)
   \<and> (senderKey sdr \<noteq> None \<and> senderCounter sdr + n \<le> 2 ^ 53
        \<longrightarrow> senderCounter (((\<lambda>x. snd (Sender_encrypt cr x P s)) ^^ n) sdr) = senderCounter sdr + n)
   \<and> (senderCounter sdr \<le> 2 ^ 53
        \<longrightarrow> senderCounter sdr \<le> senderCounter (snd (Sender_encrypt cr sdr P s))
            \<and> senderCounter (snd (Sender_encrypt cr sdr P s)) \<le> 2 ^ 53)"
proof -
  have 1: "new_Sender sid = Inr sdr0 \<longrightarrow> senderCounter sdr0 = 0"
    by (auto simp add: new_Sender_def split: sum.splits)
  have 2: "Sender_encrypt cr sdr P s = (Inr frame, sdr') \<and> 0 \<le> senderId sdr
        \<and> senderId sdr \<le> SFRAME_HEADER_MAXKEYID \<and> senderCounter sdr \<le> 2 ^ 53
        \<longrightarrow> counter (parseSFrameHeader (subarray_from frame (int s))) = Some (senderCounter sdr)"
    using Sender_encrypt_header_counter by blast
  have 3: "senderKey sdr \<noteq> None \<and> senderCounter sdr < 2 ^ 53
        \<longrightarrow> senderCounter (snd (Sender_encrypt cr sdr P s)) = senderCounter sdr + 1"
    by (simp add: Sender_encrypt_counter js_round_succ_small)
  have 4: "senderKey sdr \<noteq> None \<and> senderCounter sdr + n \<le> 2 ^ 53
        \<longrightarrow> senderCounter (((\<lambda>x. snd (Sender_encrypt cr x P s)) ^^ n) sdr) = senderCounter sdr + n"
    using Sender_encrypt_iterate by blast
  have 5: "senderCounter sdr \<le> 2 ^ 53
        \<longrightarrow> senderCounter sdr \<le> senderCounter (snd (Sender_encrypt cr sdr P s))
            \<and> senderCounter (snd (Sender_encrypt cr sdr P s)) \<le> 2 ^ 53"
    using js_round_succ_le[of "senderCounter sdr"] by (simp add: Sender_encrypt_counter)
  show ?thesis using 1 2 3 4 5 by blast
qed

lemma generate_0_max:
  "generateSFrameHeader 0 (2 ^ 53)
   = Inr \<lparr>data = [0x60, 0x20, 0, 0, 0, 0, 0, 0], keyId = Some 0, counter = Some (2 ^ 53),
          rawCounter = [0x20, 0, 0, 0, 0, 0, 0]\<rparr>"
proof -
  have k: "calculateKLENorLEN (2 ^ 53) = 6" by (rule KLEN_6) simp_all
  have b: "big_endian 7 (2 ^ 53) = [0x20, 0, 0, 0, 0, 0, 0]" by simp
  have m: "metadata_byte 6 False 0 = 0x60" by (simp add: metadata_byte_def)
  have k': "calculateKLENorLEN 9007199254740992 = 6" using k by simp
  have b': "big_endian 7 9007199254740992 = [0x20, 0, 0, 0, 0, 0, 0]" by simp
  show ?thesis
    using generateSFrameHeader_eq[of 0 "2 ^ 53"]
    by (simp add: k' b' m SFRAME_HEADER_MAXKEYID_def del: big_endian_numeral)
qed

lemma toy_ciphertextCore_max:
  "ciphertextCore toy toy_key
     \<lparr>data = [0x60, 0x20, 0, 0, 0, 0, 0, 0], keyId = Some 0, counter = Some (2 ^ 53),
      rawCounter = [0x20, 0, 0, 0, 0, 0, 0]\<rparr> [1, 2, 3, 4, 5]
   = Some [31, 28, 29, 26, 27, 15, 15, 15, 15, 15, 15, 15, 15, 15, 15, 15, 15, 15, 15, 15, 15]"
  by (simp add: ciphertextCore_def toy_key_eq generateIV_eq toy_def toy_encrypt_def toy_pad_def
      toy_tag_def replicate_numeral)

lemma toy_frame_tag_max:
  "frame_tag toy toy_key ([0x60, 0x20, 0, 0, 0, 0, 0, 0]
       @ [31, 28, 29, 26, 27, 15, 15, 15, 15, 15, 15, 15, 15, 15, 15, 15, 15, 15, 15, 15, 15])
   = [13, 13, 13, 13, 13, 13, 13, 13]"
  by (simp add: frame_tag_def toy_key_eq toy_def toy_sign_def replicate_numeral Let_def)

lemma toy_Sender_encrypt_max:
  "Sender_encrypt toy (toy_sender\<lparr>senderCounter := 2 ^ 53\<rparr>) [1, 2, 3, 4, 5] 0
   = (Inr [96, 32, 0, 0, 0, 0, 0, 0, 31, 28, 29, 26, 27, 15, 15, 15, 15, 15, 15,
           15, 15, 15, 15, 15, 15, 15, 15, 15, 15, 13, 13, 13, 13, 13, 13, 13, 13],
      toy_sender\<lparr>senderCounter := 2 ^ 53\<rparr>)"
proof -
  have r: "js_round (senderCounter (toy_sender\<lparr>senderCounter := 2 ^ 53\<rparr>) + 1) = 2 ^ 53"
    using js_round_succ_max by simp
  have g: "generateSFrameHeader (senderId (toy_sender\<lparr>senderCounter := 2 ^ 53\<rparr>))
             (senderCounter (toy_sender\<lparr>senderCounter := 2 ^ 53\<rparr>))
           = Inr \<lparr>data = [0x60, 0x20, 0, 0, 0, 0, 0, 0], keyId = Some 0, counter = Some (2 ^ 53),
                  rawCounter = [0x20, 0, 0, 0, 0, 0, 0]\<rparr>"
    using generate_0_max by (simp add: toy_sender_def)
  have k: "senderKey (toy_sender\<lparr>senderCounter := 2 ^ 53\<rparr>) = Some toy_key"
    by (simp add: toy_sender_def)
  show ?thesis
    unfolding Sender_encrypt_eq[OF k g toy_ciphertextCore_max] r
    using toy_frame_tag_max by simp
qed

text \<open>
  Claim C8. The claim: within a single Sender the first encrypt uses counter 0, every
  successive encrypt uses a strictly greater counter, and once the counter has reached the
  representable maximum the next encrypt fails instead of reusing a counter value. The
  code has no such check. At counter \<open>2\<^sup>5\<^sup>3\<close> the increment \<^verbatim>\<open>this.counter++\<close> rounds back
  to \<open>2\<^sup>5\<^sup>3\<close>: encrypt returns a frame with that counter and leaves the Sender as it was, so
  the next encrypt returns the same frame again, with the same counter and the same IV.
\<close>

theorem sender_counter_reused_at_max:
  "senderCounter (toy_sender\<lparr>senderCounter := 2 ^ 53\<rparr>) = 2 ^ 53
   \<and> fst (Sender_encrypt toy (toy_sender\<lparr>senderCounter := 2 ^ 53\<rparr>) [1, 2, 3, 4, 5] 0)
       = Inr [96, 32, 0, 0, 0, 0, 0, 0, 31, 28, 29, 26, 27, 15, 15, 15, 15, 15, 15,
              15, 15, 15, 15, 15, 15, 15, 15, 15, 15, 13, 13, 13, 13, 13, 13, 13, 13]
   \<and> counter (parseSFrameHeader
         [96, 32, 0, 0, 0, 0, 0, 0, 31, 28, 29, 26, 27, 15, 15, 15, 15, 15, 15,
          15, 15, 15, 15, 15, 15, 15, 15, 15, 15, 13, 13, 13, 13, 13, 13, 13, 13]) = Some (2 ^ 53)
   \<and> snd (Sender_encrypt toy (toy_sender\<lparr>senderCounter := 2 ^ 53\<rparr>) [1, 2, 3, 4, 5] 0)
       = toy_sender\<lparr>senderCounter := 2 ^ 53\<rparr>
   \<and> fst (Sender_encrypt toy
            (snd (Sender_encrypt toy (toy_sender\<lparr>senderCounter := 2 ^ 53\<rparr>) [1, 2, 3, 4, 5] 0))
            [1, 2, 3, 4, 5] 0)
       = fst (Sender_encrypt toy (toy_sender\<lparr>senderCounter := 2 ^ 53\<rparr>) [1, 2, 3, 4, 5] 0)"
proof -
  have "parseSFrameHeader
          (data \<lparr>data = [0x60, 0x20, 0, 0, 0, 0, 0, 0], keyId = Some 0, counter = Some (2 ^ 53),
                 rawCounter = [0x20, 0, 0, 0, 0, 0, 0]\<rparr>
           @ [31, 28, 29, 26, 27, 15, 15, 15, 15, 15, 15,
              15, 15, 15, 15, 15, 15, 15, 15, 15, 15, 13, 13, 13, 13, 13, 13, 13, 13])
        = \<lparr>data = [0x60, 0x20, 0, 0, 0, 0, 0, 0], keyId = Some 0, counter = Some (2 ^ 53),
                 rawCounter = [0x20, 0, 0, 0, 0, 0, 0]\<rparr>"
    by (rule parse_generate[OF _ _ _ _ generate_0_max])
       (simp_all add: SFRAME_HEADER_MAXKEYID_def is_double_small)
  then have "counter (parseSFrameHeader
         [96, 32, 0, 0, 0, 0, 0, 0, 31, 28, 29, 26, 27, 15, 15, 15, 15, 15, 15,
          15, 15, 15, 15, 15, 15, 15, 15, 15, 15, 13, 13, 13, 13, 13, 13, 13, 13]) = Some (2 ^ 53)"
    by simp
  then show ?thesis using toy_Sender_encrypt_max by simp
qed

section \<open>Replay window\<close>


lemma Sender_encrypt_sender_frame:
  assumes ok: "webcrypto_ok cr"
    and key: "createSFrameCrypto cr raw V = Inr k"
    and sk: "senderKey sdr = Some k"
    and kid: "0 \<le> senderId sdr" "senderId sdr \<le> SFRAME_HEADER_MAXKEYID"
    and ctr: "senderCounter sdr < 2 ^ 53"
  shows "Sender_encrypt cr sdr P s
         = (Inr (sender_frame cr k (senderId sdr) (senderCounter sdr) P s),
            sdr\<lparr>senderCounter := Suc (senderCounter sdr)\<rparr>)"
proof -
  have le: "senderCounter sdr \<le> 2 ^ 53" using ctr by simp
  obtain h c where "generateSFrameHeader (senderId sdr) (senderCounter sdr) = Inr h"
    "ciphertextCore cr k h P = Some c"
    "Sender_encrypt cr sdr P s
               = (Inr (take s P @ replicate (s - length P) 0 @ data h @ c @ frame_tag cr k (data h @ c)),
                  sdr\<lparr>senderCounter := js_round (senderCounter sdr + 1)\<rparr>)"
    using Sender_encrypt_ok[OF ok key sk kid le] by blast
  then show ?thesis
    using js_round_succ_small[OF ctr] by (simp add: sender_frame_def)
qed

lemma encrypt_all_frames:
  assumes ok: "webcrypto_ok cr"
    and key: "createSFrameCrypto cr raw V = Inr k"
    and sk: "senderKey sdr = Some k"
    and kid: "0 \<le> senderId sdr" "senderId sdr \<le> SFRAME_HEADER_MAXKEYID"
    and ctr: "senderCounter sdr + length ps \<le> 2 ^ 53"
  shows "encrypt_all cr sdr ps s
         = (Inr (map (\<lambda>(c, p). sender_frame cr k (senderId sdr) c p s)
                   (enumerate (senderCounter sdr) ps)),
            sdr\<lparr>senderCounter := senderCounter sdr + length ps\<rparr>)"
  using sk kid ctr
proof (induction ps arbitrary: sdr)
  case Nil
  then show ?case by simp
next
  case (Cons p ps)
  let ?sdr' = "sdr\<lparr>senderCounter := Suc (senderCounter sdr)\<rparr>"
  have lt: "senderCounter sdr < 2 ^ 53" using Cons.prems(4) by simp
  have e: "Sender_encrypt cr sdr p s
         = (Inr (sender_frame cr k (senderId sdr) (senderCounter sdr) p s), ?sdr')"
    by (rule Sender_encrypt_sender_frame[OF ok key Cons.prems(1,2,3) lt])
  have ih: "encrypt_all cr ?sdr' ps s
         = (Inr (map (\<lambda>(c, p). sender_frame cr k (senderId ?sdr') c p s)
                   (enumerate (senderCounter ?sdr') ps)),
            ?sdr'\<lparr>senderCounter := senderCounter ?sdr' + length ps\<rparr>)"
    by (rule Cons.IH) (use Cons.prems in simp_all)
  show ?case
    by (simp add: e ih)
qed

lemma decrypt_sender_frame:
  assumes ok: "webcrypto_ok cr"
    and key: "createSFrameCrypto cr raw V = Inr k"
    and kid: "0 \<le> kid" "kid \<le> SFRAME_HEADER_MAXKEYID"
    and ctr: "ctr \<le> 2 ^ 53"
    and s: "s \<le> length P"
    and ring: "keyring rcv = [k]"
  shows "decrypt_frame cr rcv (sender_frame cr k kid ctr P s) s =
     (if \<exists>m. maxReceivedCounter rcv = Some m \<and> int ctr < m \<and> m - int ctr > 128
      then (Inl (SFrameError ReplayAttackError), rcv)
      else (Inr P, rcv\<lparr>maxReceivedCounter := js_max (Some (int ctr)) (maxReceivedCounter rcv)\<rparr>))"
proof -
  have c64: "ctr < 2 ^ 64" using ctr by (rule le_less_trans) simp
  obtain h where h: "generateSFrameHeader kid ctr = Inr h"
    using generateSFrameHeader_eq[OF kid KLEN_le_7[OF ctr]] by simp
  have rl: "length (rawCounter h) \<le> length (saltKey (cipherSuite k))"
    using generate_rawCounter_length[OF kid c64 h] createSFrameCrypto_props(1)[OF ok key] by simp
  obtain c where c: "ciphertextCore cr k h P = Some c"
    using ciphertextCore_ok[OF ok rl, of P] by blast
  have f: "sender_frame cr k kid ctr P s = take s P @ data h @ c @ frame_tag cr k (data h @ c)"
    using s by (simp add: sender_frame_def h c)
  have ring': "keyring rcv = [] @ k # []" using ring by simp
  show ?thesis
    unfolding f
    by (rule valid_frame_decrypt[OF ok key kid ctr h c s ring']) simp
qed

lemma decrypt_all_Cons_fst:
  "fst (decrypt_all cr r (f # fs) s)
   = fst (decrypt_frame cr r f s) # fst (decrypt_all cr (snd (decrypt_frame cr r f s)) fs s)"
  by (simp split: prod.splits)

lemma decrypt_all_below_max:
  assumes ok: "webcrypto_ok cr"
    and key: "createSFrameCrypto cr raw V = Inr k"
    and kid: "0 \<le> kid" "kid \<le> SFRAME_HEADER_MAXKEYID"
    and ring: "keyring rcv = [k]"
    and mx: "maxReceivedCounter rcv = Some m"
    and cps: "\<forall>(c, p) \<in> set cps. int c \<le> m \<and> c \<le> 2 ^ 53 \<and> s \<le> length p"
  shows "fst (decrypt_all cr rcv (map (\<lambda>(c, p). sender_frame cr k kid c p s) cps) s)
         = map (\<lambda>(c, p). if m - int c > 128 then Inl (SFrameError ReplayAttackError) else Inr p) cps"
  using ring mx cps
proof (induction cps arbitrary: rcv)
  case Nil
  then show ?case by simp
next
  case (Cons cp cps)
  obtain c p where cp: "cp = (c, p)" by (cases cp)
  have c: "int c \<le> m" "c \<le> 2 ^ 53" "s \<le> length p" using Cons.prems(3) cp by auto
  define rcv' where "rcv' = (if m - int c > 128 then rcv
               else rcv\<lparr>maxReceivedCounter := js_max (Some (int c)) (maxReceivedCounter rcv)\<rparr>)"
  have d: "decrypt_frame cr rcv (sender_frame cr k kid c p s) s
           = (if m - int c > 128 then Inl (SFrameError ReplayAttackError) else Inr p, rcv')"
    using decrypt_sender_frame[OF ok key kid c(2,3) Cons.prems(1)] Cons.prems(2) c(1)
    by (auto simp add: rcv'_def)
  have r': "keyring rcv' = [k]" "maxReceivedCounter rcv' = Some m"
    using Cons.prems(1,2) c(1) by (auto simp add: js_max_def max_def rcv'_def)
  have ih: "fst (decrypt_all cr rcv' (map (\<lambda>(c, p). sender_frame cr k kid c p s) cps) s)
         = map (\<lambda>(c, p). if m - int c > 128 then Inl (SFrameError ReplayAttackError) else Inr p) cps"
    by (rule Cons.IH[OF r']) (use Cons.prems(3) in auto)
  show ?case
    unfolding cp list.map prod.case decrypt_all_Cons_fst d fst_conv snd_conv ih ..
qed


lemma map_enumerate_accept:
  assumes "\<And>c p. n \<le> c \<Longrightarrow> g (c, p) = Inr p"
  shows "map g (enumerate n ys) = map Inr ys"
  using assms by (induction ys arbitrary: n) auto

lemma map_enumerate_reject:
  assumes "\<And>c p. c < n + length xs \<Longrightarrow> g (c, p) = e"
  shows "map g (enumerate n xs) = replicate (length xs) e"
  using assms
proof (induction xs arbitrary: n)
  case Nil
  then show ?case by simp
next
  case (Cons x xs)
  have "map g (enumerate (Suc n) xs) = replicate (length xs) e"
    by (rule Cons.IH) (use Cons.prems in simp)
  then show ?case using Cons.prems[of n x] by simp
qed

lemma replay_results:
  fixes ps :: "bytes list"
  assumes "length ps = 200"
  shows "map (\<lambda>(c, p). if 199 - int c > 128 then Inl (SFrameError ReplayAttackError) else Inr p)
           (rev (enumerate 0 ps))
         = map Inr (rev (drop 71 ps)) @ replicate 71 (Inl (SFrameError ReplayAttackError))"
proof -
  let ?g = "\<lambda>(c, p). if 199 - int c > 128 then Inl (SFrameError ReplayAttackError) else Inr (p :: bytes)"
  have split: "enumerate 0 ps = enumerate 0 (take 71 ps) @ enumerate 71 (drop 71 ps)"
    using enumerate_append_eq[of 0 "take 71 ps" "drop 71 ps"] assms by simp
  have a: "map ?g (enumerate 71 (drop 71 ps)) = map Inr (drop 71 ps)"
    by (rule map_enumerate_accept) simp
  have "map ?g (enumerate 0 (take 71 ps))
        = replicate (length (take 71 ps)) (Inl (SFrameError ReplayAttackError))"
    by (rule map_enumerate_reject) (use assms in simp)
  then have b: "map ?g (enumerate 0 (take 71 ps)) = replicate 71 (Inl (SFrameError ReplayAttackError))"
    using assms by simp
  show ?thesis
    unfolding split rev_append map_append rev_map[symmetric] a b
    by (simp add: rev_map)
qed

lemma replay_scenario:
  fixes ps :: "bytes list"
  assumes ok: "webcrypto_ok cr"
    and key: "createSFrameCrypto cr raw V = Inr k"
    and kid: "0 \<le> kid" "kid \<le> SFRAME_HEADER_MAXKEYID"
    and len: "length ps = 200"
    and s: "\<forall>p \<in> set ps. s \<le> length p"
  shows "\<exists>frames. fst (encrypt_all cr \<lparr>senderId = kid, senderCounter = 0, senderKey = Some k\<rparr> ps s)
                     = Inr frames
           \<and> length frames = 200
           \<and> fst (decrypt_all cr \<lparr>maxReceivedCounter = Some (- 1), keyring = [k]\<rparr> (rev frames) s)
               = map Inr (rev (drop 71 ps)) @ replicate 71 (Inl (SFrameError ReplayAttackError))"
proof -
  let ?sdr = "\<lparr>senderId = kid, senderCounter = 0, senderKey = Some k\<rparr>"
  let ?rcv = "\<lparr>maxReceivedCounter = Some (- 1), keyring = [k]\<rparr>"
  let ?F = "\<lambda>(c, p). sender_frame cr k kid c p s"
  let ?g = "\<lambda>(c, p). if 199 - int c > 128 then Inl (SFrameError ReplayAttackError) else Inr (p :: bytes)"
  have "encrypt_all cr ?sdr ps s
         = (Inr (map (\<lambda>(c, p). sender_frame cr k (senderId ?sdr) c p s)
                   (enumerate (senderCounter ?sdr) ps)),
            ?sdr\<lparr>senderCounter := senderCounter ?sdr + length ps\<rparr>)"
    by (rule encrypt_all_frames[OF ok key]) (use kid len in simp_all)
  then have enc: "fst (encrypt_all cr ?sdr ps s) = Inr (map ?F (enumerate 0 ps))" by simp
  have ne: "ps \<noteq> []" using len by auto
  have bl: "length (butlast ps) = 199" using len by simp
  have "enumerate 0 ps = enumerate 0 (butlast ps @ [last ps])" using ne by simp
  also have "\<dots> = enumerate 0 (butlast ps) @ [(199, last ps)]"
    unfolding enumerate_append_eq bl by simp
  finally have en: "rev (enumerate 0 ps) = (199, last ps) # rev (enumerate 0 (butlast ps))"
    by simp
  have sl: "s \<le> length (last ps)" using s ne by simp
  have d1: "decrypt_frame cr ?rcv (sender_frame cr k kid 199 (last ps) s) s
            = (Inr (last ps), ?rcv\<lparr>maxReceivedCounter := Some 199\<rparr>)"
    using decrypt_sender_frame[OF ok key kid _ sl, of 199 ?rcv]
    by (simp add: js_max_def)
  have rest: "\<forall>(c, p) \<in> set (rev (enumerate 0 (butlast ps))).
                 int c \<le> 199 \<and> c \<le> 2 ^ 53 \<and> s \<le> length p"
  proof -
    have "\<forall>p \<in> set (butlast ps). s \<le> length p" using s by (auto dest: in_set_butlastD)
    then show ?thesis using bl by (auto simp add: in_set_enumerate_eq)
  qed
  have d2: "fst (decrypt_all cr (?rcv\<lparr>maxReceivedCounter := Some 199\<rparr>)
                   (map ?F (rev (enumerate 0 (butlast ps)))) s)
            = map ?g (rev (enumerate 0 (butlast ps)))"
    by (rule decrypt_all_below_max[OF ok key kid _ _ rest]) simp_all
  have "fst (decrypt_all cr ?rcv (rev (map ?F (enumerate 0 ps))) s)
        = map ?g (rev (enumerate 0 ps))"
    unfolding rev_map en list.map prod.case decrypt_all_Cons_fst d1 fst_conv snd_conv d2
    by simp
  then have "fst (decrypt_all cr ?rcv (rev (map ?F (enumerate 0 ps))) s)
        = map Inr (rev (drop 71 ps)) @ replicate 71 (Inl (SFrameError ReplayAttackError))"
    using replay_results[OF len] by simp
  then show ?thesis using enc len by simp
qed


text \<open>
  Claim C3, corrected. A frame with counter \<open>c\<close> fails the replay check if and only if
  \<open>c < maxReceivedCounter\<close> and \<open>maxReceivedCounter - c > W\<close>, with \<open>W = 128\<close>. When a new
  receiver decrypts 200 valid frames with counters 0..199 in reverse order, starting from
  counter 199, the first 129 attempts (counters 199 down to 71) return their payloads and
  the remaining 71 attempts (counters 70 down to 0) fail with \<open>ReplayAttackError\<close>.
\<close>

theorem replay_window_reverse_order:
  fixes ps :: "bytes list"
  assumes "webcrypto_ok cr"
    and "createSFrameCrypto cr rawKey variant = Inr k"
    and "0 \<le> kid" and "kid \<le> SFRAME_HEADER_MAXKEYID"
    and "length ps = 200"
    and "\<forall>p \<in> set ps. s \<le> length p"
  shows "ReplayWindow = 128
         \<and> (checkForReplayAttack r h = Inl (SFrameError ReplayAttackError)
              \<longleftrightarrow> (\<exists>c m. counter h = Some c \<and> maxReceivedCounter r = Some m
                          \<and> int c < m \<and> m - int c > ReplayWindow))
         \<and> (\<exists>frames.
               fst (encrypt_all cr \<lparr>senderId = kid, senderCounter = 0, senderKey = Some k\<rparr> ps s)
                 = Inr frames
               \<and> length frames = 200
               \<and> fst (decrypt_all cr \<lparr>maxReceivedCounter = Some (- 1), keyring = [k]\<rparr>
                         (rev frames) s)
                   = map Inr (rev (drop 71 ps))
                     @ replicate 71 (Inl (SFrameError ReplayAttackError)))"
  using replay_scenario[OF assms]
  by (auto simp add: checkForReplayAttack_eq ReplayWindow_def)

theorem replay_window_reverse_order_witness:
  "webcrypto_ok toy
   \<and> createSFrameCrypto toy toy_rawKey AES_GCM_128_SHA256 = Inr toy_key
   \<and> (0 :: int) \<le> 0 \<and> 0 \<le> SFRAME_HEADER_MAXKEYID
   \<and> length (replicate 200 [0xde, 0xad, 0xbe, 0xaf, 0xca :: u8]) = 200
   \<and> 4 \<le> length [0xde, 0xad, 0xbe, 0xaf, 0xca :: u8]
   \<and> (\<exists>frames.
         fst (encrypt_all toy \<lparr>senderId = 0, senderCounter = 0, senderKey = Some toy_key\<rparr>
                (replicate 200 [0xde, 0xad, 0xbe, 0xaf, 0xca]) 4) = Inr frames
         \<and> length frames = 200
         \<and> fst (decrypt_all toy \<lparr>maxReceivedCounter = Some (- 1), keyring = [toy_key]\<rparr>
                   (rev frames) 4)
             = replicate 129 (Inr [0xde, 0xad, 0xbe, 0xaf, 0xca])
               @ replicate 71 (Inl (SFrameError ReplayAttackError)))"
proof -
  have m: "0 \<le> SFRAME_HEADER_MAXKEYID" by (simp add: SFRAME_HEADER_MAXKEYID_def)
  have l: "length (replicate 200 [0xde, 0xad, 0xbe, 0xaf, 0xca :: u8]) = 200" by simp
  have s: "\<forall>p \<in> set (replicate 200 [0xde, 0xad, 0xbe, 0xaf, 0xca :: u8]). 4 \<le> length p" by simp
  have d: "map Inr (rev (drop 71 (replicate 200 [0xde, 0xad, 0xbe, 0xaf, 0xca :: u8])))
           = (replicate 129 (Inr [0xde, 0xad, 0xbe, 0xaf, 0xca]) :: (error + bytes) list)"
    by simp
  show ?thesis
    using replay_window_reverse_order[OF webcrypto_ok_toy createSFrameCrypto_toy_key _ m l s]
      webcrypto_ok_toy createSFrameCrypto_toy_key m
    unfolding d by simp
qed

theorem replay_window_attempt_129_counterexample:
  "fst (decrypt_all toy toy_new_receiver
          (rev (projr (fst (encrypt_all toy toy_sender
                              (replicate 200 [0xde, 0xad, 0xbe, 0xaf, 0xca]) 4)))) 4) ! 128
   = Inr [0xde, 0xad, 0xbe, 0xaf, 0xca]"
proof -
  have m: "0 \<le> SFRAME_HEADER_MAXKEYID" by (simp add: SFRAME_HEADER_MAXKEYID_def)
  have l: "length (replicate 200 [0xde, 0xad, 0xbe, 0xaf, 0xca :: u8]) = 200" by simp
  have s: "\<forall>p \<in> set (replicate 200 [0xde, 0xad, 0xbe, 0xaf, 0xca :: u8]). 4 \<le> length p" by simp
  obtain frames where f: "fst (encrypt_all toy toy_sender
                                 (replicate 200 [0xde, 0xad, 0xbe, 0xaf, 0xca]) 4) = Inr frames"
    and r: "fst (decrypt_all toy toy_new_receiver (rev frames) 4)
             = map Inr (rev (drop 71 (replicate 200 [0xde, 0xad, 0xbe, 0xaf, 0xca])))
               @ replicate 71 (Inl (SFrameError ReplayAttackError))"
    using replay_scenario[OF webcrypto_ok_toy createSFrameCrypto_toy_key _ m l s]
    unfolding toy_sender_def toy_new_receiver_def by auto
  show ?thesis
    unfolding f sum.sel r by (simp add: nth_append)
qed

end
